theory Spec2Isabelle
  imports Complex_Main "HOL-Library.Multiset"
begin

section \<open>Data model (types.ts)\<close>

text \<open>
  Task dates are ISO strings that the views turn into \<open>Date\<close> objects with \<open>parseISO\<close>.
  The model covers dates that are whole calendar days, as the program makes them (the
  add-task dialog formats \<open>yyyy-MM-dd\<close>, a drag adds whole days with \<open>addDays\<close>):
  a date is its day number, counted from 1970-01-01. On whole days \<open>getTime\<close> is
  strictly increasing in the day number, \<open>addDays d n\<close> is \<open>d + n\<close> and
  \<open>differenceInDays a b\<close> is \<open>a - b\<close>. Times of day and time zones are not modelled.
\<close>

type_synonym date = int

record executingUnit =
  unit_id :: string
  unit_name :: string
  color :: string

record task =
  task_id :: string
  task_name :: string
  startDate :: date
  endDate :: date
  unitId :: "string option"
  groupId :: "string option"

text \<open>
  Ids are only ever compared, so they are plain strings. The name of a group comes from
  a prompt and goes through \<open>trim\<close>, which looks at its UTF-16 code units: a name is
  the list of its code units.
\<close>

type_synonym text16 = "nat list"

record taskGroup =
  group_id :: string
  group_name :: text16
  taskIds :: "string list"
  intervals :: "int list"

record project =
  project_id :: string
  project_name :: string
  projectStart :: date
  projectEnd :: date
  tasks :: "task list"
  units :: "executingUnit list"
  groups :: "taskGroup list"

section \<open>Library functions used by the views\<close>

definition addDays :: "date \<Rightarrow> int \<Rightarrow> date" where
  "addDays d n = d + n"

definition differenceInDays :: "date \<Rightarrow> date \<Rightarrow> int" where
  "differenceInDays a b = a - b"

text \<open>Day of the week, 0 for Sunday; day 0 (1970-01-01) was a Thursday.\<close>

definition getDay :: "date \<Rightarrow> int" where
  "getDay d = (d + 4) mod 7"

text \<open>
  \<open>endOfWeek d {weekStartsOn: 0}\<close> is the last instant of the Saturday of the week of
  \<open>d\<close>. It is only ever compared with whole days, and a whole day is before that instant
  exactly when it is not after that Saturday: the Saturday's day number stands for it.
\<close>

definition endOfWeek :: "date \<Rightarrow> date" where
  "endOfWeek d = d + (6 - getDay d)"

text \<open>
  \<open>Array.prototype.sort\<close> with a comparator is a stable sort: an element goes before
  another one exactly when the comparator says so or, on a tie, when it came first.
\<close>

fun insort_by :: "('a \<Rightarrow> 'a \<Rightarrow> int) \<Rightarrow> 'a \<Rightarrow> 'a list \<Rightarrow> 'a list" where
  "insort_by cmp x [] = [x]"
| "insort_by cmp x (y # ys) = (if cmp x y \<le> 0 then x # y # ys else y # insort_by cmp x ys)"

definition sort_by :: "('a \<Rightarrow> 'a \<Rightarrow> int) \<Rightarrow> 'a list \<Rightarrow> 'a list" where
  "sort_by cmp xs = foldr (insort_by cmp) xs []"

section \<open>Lane packer (CalendarView, arrangeTasksInLanes)\<close>

text \<open>The spans the packer compares are cut to the week: \<open>tStart\<close>, \<open>tEnd\<close> in the source.\<close>

definition clampedStart :: "date \<Rightarrow> task \<Rightarrow> date" where
  "clampedStart weekStart t = max (startDate t) weekStart"

definition clampedEnd :: "date \<Rightarrow> task \<Rightarrow> date" where
  "clampedEnd weekStart t = min (endDate t) (endOfWeek weekStart)"

text \<open>The filter that keeps the tasks meeting the week.\<close>

definition inWeek :: "date \<Rightarrow> task \<Rightarrow> bool" where
  "inWeek weekStart t \<longleftrightarrow> clampedStart weekStart t \<le> clampedEnd weekStart t"

text \<open>The comparator of the sort: start ascending, then end descending.\<close>

definition laneOrder :: "task \<Rightarrow> task \<Rightarrow> int" where
  "laneOrder a b =
     (let diff = differenceInDays (startDate a) (startDate b)
      in if diff \<noteq> 0 then diff else differenceInDays (endDate b) (endDate a))"

definition sortedTasks :: "task list \<Rightarrow> date \<Rightarrow> task list" where
  "sortedTasks ts weekStart = sort_by laneOrder (filter (inWeek weekStart) ts)"

text \<open>The test inside \<open>lane.some\<close>, with the new task first.\<close>

definition overlapsInWeek :: "date \<Rightarrow> task \<Rightarrow> task \<Rightarrow> bool" where
  "overlapsInWeek weekStart t existing \<longleftrightarrow>
     clampedStart weekStart t \<le> clampedEnd weekStart existing \<and>
     clampedEnd weekStart t \<ge> clampedStart weekStart existing"

definition hasOverlap :: "date \<Rightarrow> task \<Rightarrow> task list \<Rightarrow> bool" where
  "hasOverlap weekStart t lane = list_ex (overlapsInWeek weekStart t) lane"

text \<open>
  The body of \<open>forEach\<close>: the \<open>for\<close> loop over the lanes pushes the task on the first
  lane without an overlap and stops; after the last lane a new lane is pushed.
\<close>

fun placeTask :: "date \<Rightarrow> task \<Rightarrow> task list list \<Rightarrow> task list list" where
  "placeTask weekStart t [] = [[t]]"
| "placeTask weekStart t (lane # rest) =
     (if \<not> hasOverlap weekStart t lane then (lane @ [t]) # rest
      else lane # placeTask weekStart t rest)"

definition arrangeTasksInLanes :: "task list \<Rightarrow> date \<Rightarrow> task list list" where
  "arrangeTasksInLanes ts weekStart =
     foldl (\<lambda>lanes t. placeTask weekStart t lanes) [] (sortedTasks ts weekStart)"

section \<open>Group model (CalendarView.handleCreateGroup, GroupRelationshipView)\<close>

text \<open>
  The comparator of the group sorts, \<open>parseISO(a.startDate).getTime() -
  parseISO(b.startDate).getTime()\<close>: only its sign matters, and on whole days it is the
  sign of the difference of the day numbers.
\<close>

definition startOrder :: "task \<Rightarrow> task \<Rightarrow> int" where
  "startOrder a b = startDate a - startDate b"

text \<open>\<open>ids.map(id => project.tasks.find(t => t.id === id)).filter(Boolean)\<close>\<close>

definition findTasks :: "task list \<Rightarrow> string list \<Rightarrow> task list" where
  "findTasks ts ids = List.map_filter (\<lambda>i. find (\<lambda>t. task_id t = i) ts) ids"

text \<open>
  \<open>xs.slice(0, -1).map((t, i) => Math.max(0, differenceInDays(parseISO(xs[i+1].startDate),
  parseISO(t.endDate))))\<close>: the index \<open>i + 1\<close> is always inside \<open>xs\<close>.
\<close>

definition gapsOf :: "task list \<Rightarrow> int list" where
  "gapsOf xs =
     map (\<lambda>(t, i). max 0 (differenceInDays (startDate (xs ! (i + 1))) (endDate t)))
       (zip (butlast xs) [0..<length (butlast xs)])"

datatype error = InsufficientSelection

text \<open>One old group in \<open>cleanedGroups\<close>: \<open>None\<close> is the \<open>null\<close> that the filter drops.\<close>

definition cleanGroup :: "task list \<Rightarrow> string list \<Rightarrow> taskGroup \<Rightarrow> taskGroup option" where
  "cleanGroup ts newIds g =
     (let remainingTaskIds = filter (\<lambda>i. i \<notin> set newIds) (taskIds g)
      in if length remainingTaskIds = 0 then None
         else if length remainingTaskIds \<noteq> length (taskIds g) then
           (let remainingTasks = sort_by startOrder (findTasks ts remainingTaskIds);
                newIntervals = (if length remainingTasks > 1 then gapsOf remainingTasks else [])
            in Some (g\<lparr>taskIds := remainingTaskIds, intervals := newIntervals\<rparr>))
         else Some g)"

text \<open>
  The body of \<open>handleCreateGroup\<close> after the prompt. \<open>selected\<close> is
  \<open>Array.from(selectedTaskIds)\<close>, the ids of a \<open>Set\<close> in insertion order;
  \<open>newGroupId\<close> is the value of \<open>crypto.randomUUID()\<close>. \<open>Inl\<close> is the return
  after the notification, \<open>Inr\<close> the project given to \<open>onProjectUpdate\<close>.
\<close>

definition createGroup :: "text16 \<Rightarrow> string \<Rightarrow> string list \<Rightarrow> project \<Rightarrow> error + project" where
  "createGroup groupName newGroupId selected p =
     (let selectedTasks = sort_by startOrder (findTasks (tasks p) selected)
      in if length selectedTasks < 2 then Inl InsufficientSelection
         else
           (let ids = map task_id selectedTasks;
                ivs = gapsOf selectedTasks;
                cleanedGroups = List.map_filter (cleanGroup (tasks p) ids) (groups p);
                newGroup = \<lparr>group_id = newGroupId, group_name = groupName,
                            taskIds = ids, intervals = ivs\<rparr>;
                updatedTasks = map (\<lambda>t. if task_id t \<in> set ids
                                          then t\<lparr>groupId := Some newGroupId\<rparr> else t) (tasks p)
            in Inr (p\<lparr>tasks := updatedTasks, groups := cleanedGroups @ [newGroup]\<rparr>)))"

text \<open>
  What the calendar view holds and shows: the project of the host (replaced by
  \<open>onProjectUpdate\<close>), the selection, and the notifications raised so far.
\<close>

datatype notice = Info error | Success text16

record viewState =
  project :: project
  selectedTaskIds :: "string list"
  notifications :: "notice list"

text \<open>
  What \<open>trim\<close> removes at both ends: the white space and the line terminators of
  ECMAScript, all of them single code units (tab, line feed, vertical tab, form feed,
  carriage return, space, no-break space, U+1680, U+2000 to U+200A, U+2028, U+2029,
  U+202F, U+205F, U+3000 and U+FEFF).
\<close>

definition isWhiteSpace :: "nat \<Rightarrow> bool" where
  "isWhiteSpace c \<longleftrightarrow>
     c \<in> set [0x09, 0x0A, 0x0B, 0x0C, 0x0D, 0x20, 0xA0, 0x1680, 0x2028, 0x2029, 0x202F, 0x205F,
               0x3000, 0xFEFF] \<or>
     (0x2000 \<le> c \<and> c \<le> 0x200A)"

text \<open>
  \<open>!groupName || groupName.trim() === ''\<close>, for the text a prompt returned: the text is
  empty, or nothing is left of it once the white space is trimmed.
\<close>

definition blank :: "text16 \<Rightarrow> bool" where
  "blank s = list_all isWhiteSpace s"

text \<open>
  \<open>handleCreateGroup\<close>: \<open>prompted\<close> is the answer of \<open>prompt\<close> (\<open>None\<close> when it was
  dismissed).
\<close>

definition handleCreateGroup :: "bool \<Rightarrow> text16 option \<Rightarrow> string \<Rightarrow> viewState \<Rightarrow> viewState" where
  "handleCreateGroup isLocked prompted newGroupId s =
     (if isLocked then s
      else case prompted of
        None \<Rightarrow> s
      | Some groupName \<Rightarrow>
          if blank groupName then s
          else (case createGroup groupName newGroupId (selectedTaskIds s) (project s) of
            Inl e \<Rightarrow> s\<lparr>notifications := notifications s @ [Info e]\<rparr>
          | Inr p' \<Rightarrow> s\<lparr>project := p', notifications := notifications s @ [Success groupName],
                        selectedTaskIds := []\<rparr>))"

text \<open>The handlers of the group view return the project the host holds afterwards.\<close>

definition handleDeleteGroup :: "bool \<Rightarrow> string \<Rightarrow> project \<Rightarrow> project" where
  "handleDeleteGroup isLocked gid p =
     (if isLocked then p
      else
        (let updatedGroups = filter (\<lambda>g. group_id g \<noteq> gid) (groups p);
             updatedTasks = map (\<lambda>t. if groupId t = Some gid then t\<lparr>groupId := None\<rparr> else t) (tasks p)
         in p\<lparr>groups := updatedGroups, tasks := updatedTasks\<rparr>))"

text \<open>\<open>new Map(project.tasks.map(task => [task.id, task]))\<close>: a later entry replaces an earlier one.\<close>

definition taskMap :: "task list \<Rightarrow> string \<Rightarrow> task option" where
  "taskMap ts = map_of (rev (map (\<lambda>t. (task_id t, t)) ts))"

definition handleUnlinkTask :: "bool \<Rightarrow> string \<Rightarrow> string \<Rightarrow> project \<Rightarrow> project" where
  "handleUnlinkTask isLocked taskId gid p =
     (if isLocked then p
      else case find (\<lambda>g. group_id g = gid) (groups p) of
        None \<Rightarrow> p
      | Some grp \<Rightarrow>
          (let remainingTaskIds = filter (\<lambda>i. i \<noteq> taskId) (taskIds grp);
               updatedGroups =
                 (if length remainingTaskIds = 0 then filter (\<lambda>g. group_id g \<noteq> gid) (groups p)
                  else
                    (let remainingTasks =
                           sort_by startOrder (List.map_filter (taskMap (tasks p)) remainingTaskIds);
                         newIntervals = gapsOf remainingTasks;
                         updatedGroup = grp\<lparr>taskIds := remainingTaskIds, intervals := newIntervals\<rparr>
                     in map (\<lambda>g. if group_id g = gid then updatedGroup else g) (groups p)));
               updatedTasks = map (\<lambda>t. if task_id t = taskId then t\<lparr>groupId := None\<rparr> else t) (tasks p)
           in p\<lparr>groups := updatedGroups, tasks := updatedTasks\<rparr>))"

section \<open>Drag controller (CalendarView.handleTaskDragStart, handleMouseMove)\<close>

text \<open>
  Pointer coordinates and cell sizes are JavaScript numbers, that is doubles; a double
  is modelled by the real it stands for. A subtraction or a division of doubles gives
  the double nearest the exact result: \<open>fl\<close> of it, where \<open>fl\<close> rounds a real to a
  double. The handlers take \<open>fl\<close> as a parameter, so what is proved of them holds
  whatever the rounding is, that of IEEE 754 included. Comparisons are exact, and so is
  \<open>Math.round\<close>, which is \<open>round\<close>: the nearest integer, a half going up. Results
  beyond the range of doubles are not modelled.
\<close>

datatype dragType = Move | ResizeStart | ResizeEnd

record relatedTask =
  rel_id :: string
  initialStart :: date
  initialEnd :: date

record dragState =
  drag_task :: task
  drag_type :: dragType
  initialMouseX :: real
  initialMouseY :: real
  dayWidth :: real
  weekHeight :: real
  taskInitialStartDate :: date
  taskInitialEndDate :: date
  relatedTasks :: "relatedTask list"

text \<open>A \<open>groupId\<close> used as a condition: present and not the empty string.\<close>

definition truthy :: "string option \<Rightarrow> bool" where
  "truthy g = (case g of None \<Rightarrow> False | Some s \<Rightarrow> s \<noteq> [])"

definition snapshot :: "task \<Rightarrow> relatedTask" where
  "snapshot t = \<lparr>rel_id = task_id t, initialStart = startDate t, initialEnd = endDate t\<rparr>"

text \<open>
  \<open>handleTaskDragStart\<close>: \<open>editing\<close> says that a task name is being edited, \<open>rect\<close> is
  the width and height of the enclosing week grid when there is one. The result is the
  drag state together with the working copy \<open>tempProject\<close>.
\<close>

definition handleTaskDragStart ::
  "(real \<Rightarrow> real) \<Rightarrow> bool \<Rightarrow> bool \<Rightarrow> (real \<times> real) option \<Rightarrow> project \<Rightarrow> task \<Rightarrow> dragType
     \<Rightarrow> real \<Rightarrow> real \<Rightarrow> (dragState \<times> project) option" where
  "handleTaskDragStart fl isLocked editing rect p taskProp type clientX clientY =
     (if isLocked then None
      else if editing then None
      else case rect of
        None \<Rightarrow> None
      | Some (width, height) \<Rightarrow>
          (let t = (case find (\<lambda>t. task_id t = task_id taskProp) (tasks p) of
                      Some found \<Rightarrow> found | None \<Rightarrow> taskProp);
               related = (if truthy (groupId t) \<and> type = Move
                          then map snapshot (filter (\<lambda>u. groupId u = groupId t) (tasks p))
                          else [snapshot t])
           in Some (\<lparr>drag_task = t, drag_type = type,
                      initialMouseX = clientX, initialMouseY = clientY,
                      dayWidth = fl (width / 7),
                      weekHeight = (if height > 0 then height else 120),
                      taskInitialStartDate = startDate t,
                      taskInitialEndDate = endDate t,
                      relatedTasks = related\<rparr>, p)))"

text \<open>
  \<open>Math.round(dx / dayWidth)\<close>. With a day width of zero the quotient is infinite or
  not a number, \<open>addDays\<close> gives an invalid date and \<open>toISOString\<close> throws a
  \<open>RangeError\<close>: \<open>None\<close> stands for such an offset.
\<close>

definition roundedQuotient :: "(real \<Rightarrow> real) \<Rightarrow> real \<Rightarrow> real \<Rightarrow> int option" where
  "roundedQuotient fl d cell = (if cell = 0 then None else Some (round (fl (d / cell))))"

datatype dragError = InvalidTimeValue

fun findIndex :: "('a \<Rightarrow> bool) \<Rightarrow> 'a list \<Rightarrow> nat option" where
  "findIndex P [] = None"
| "findIndex P (x # xs) = (if P x then Some 0 else map_option Suc (findIndex P xs))"

text \<open>The \<open>forEach\<close> over the related tasks of a move, on the copy \<open>newTasks\<close>.\<close>

fun moveRelated :: "int option \<Rightarrow> relatedTask list \<Rightarrow> task list \<Rightarrow> dragError + task list" where
  "moveRelated totalDayOffset [] newTasks = Inr newTasks"
| "moveRelated totalDayOffset (related # rest) newTasks =
     (case findIndex (\<lambda>t. task_id t = rel_id related) newTasks of
        None \<Rightarrow> moveRelated totalDayOffset rest newTasks
      | Some index \<Rightarrow>
          (case totalDayOffset of
             None \<Rightarrow> Inl InvalidTimeValue
           | Some n \<Rightarrow>
               (let newStart = addDays (initialStart related) n;
                    duration = differenceInDays (initialEnd related) (initialStart related);
                    newEnd = addDays newStart duration
                in moveRelated totalDayOffset rest
                     (newTasks[index := (newTasks ! index)\<lparr>startDate := newStart, endDate := newEnd\<rparr>]))))"

text \<open>
  \<open>handleMouseMove\<close> with a drag state and a working copy at hand; the result is the
  new working copy.
\<close>

definition handleMouseMove ::
  "(real \<Rightarrow> real) \<Rightarrow> dragState \<Rightarrow> project \<Rightarrow> real \<Rightarrow> real \<Rightarrow> dragError + project" where
  "handleMouseMove fl ds tempProject clientX clientY =
     (let dx = fl (clientX - initialMouseX ds);
          dy = fl (clientY - initialMouseY ds)
      in if \<bar>dx\<bar> < 3 \<and> \<bar>dy\<bar> < 3 then Inr tempProject
         else if drag_type ds = Move then
           (let dayOffsetHorizontal = roundedQuotient fl dx (dayWidth ds);
                weekOffsetVertical = (if weekHeight ds > 0 then round (fl (dy / weekHeight ds)) else 0);
                totalDayOffset = map_option (\<lambda>h. h + weekOffsetVertical * 7) dayOffsetHorizontal
            in case moveRelated totalDayOffset (relatedTasks ds) (tasks tempProject) of
                 Inl e \<Rightarrow> Inl e
               | Inr newTasks \<Rightarrow> Inr (tempProject\<lparr>tasks := newTasks\<rparr>))
         else
           (case roundedQuotient fl dx (dayWidth ds) of
              None \<Rightarrow> Inl InvalidTimeValue
            | Some dayOffset \<Rightarrow>
                (let newStartDate0 = taskInitialStartDate ds;
                     newEndDate0 = taskInitialEndDate ds;
                     (newStartDate, newEndDate) =
                       (if drag_type ds = ResizeStart then
                          (let s = addDays (taskInitialStartDate ds) dayOffset
                           in (if s > newEndDate0 then newEndDate0 else s, newEndDate0))
                        else
                          (let e = addDays (taskInitialEndDate ds) dayOffset
                           in (newStartDate0, if e < newStartDate0 then newStartDate0 else e)));
                     updatedTask = (drag_task ds)\<lparr>startDate := newStartDate, endDate := newEndDate\<rparr>
                 in Inr (tempProject\<lparr>tasks :=
                      map (\<lambda>t. if task_id t = task_id updatedTask then updatedTask else t)
                        (tasks tempProject)\<rparr>))))"

section \<open>The membership invariant\<close>

text \<open>
  A task with a \<open>groupId\<close> is listed by the group of that id; a group lists each id
  once, and each id it lists is the id of a task whose \<open>groupId\<close> is the group's id.
  Task ids and group ids are unique.
\<close>

definition taskLinked :: "taskGroup list \<Rightarrow> task \<Rightarrow> bool" where
  "taskLinked gs t \<longleftrightarrow>
     (case groupId t of
        None \<Rightarrow> True
      | Some gid \<Rightarrow> \<exists>g\<in>set gs. group_id g = gid \<and> task_id t \<in> set (taskIds g))"

definition groupLinked :: "task list \<Rightarrow> taskGroup \<Rightarrow> bool" where
  "groupLinked ts g \<longleftrightarrow>
     distinct (taskIds g) \<and>
     (\<forall>i\<in>set (taskIds g). \<exists>t\<in>set ts. task_id t = i \<and> groupId t = Some (group_id g))"

definition membershipOK :: "project \<Rightarrow> bool" where
  "membershipOK p \<longleftrightarrow>
     distinct (map task_id (tasks p)) \<and> distinct (map group_id (groups p)) \<and>
     (\<forall>t\<in>set (tasks p). taskLinked (groups p) t) \<and>
     (\<forall>g\<in>set (groups p). groupLinked (tasks p) g)"

section \<open>Example data\<close>

text \<open>
  Day numbers of January 2024: the 1st is day 19723 (a Monday), the 7th is day 19729
  (a Sunday).
\<close>

text \<open>The code units of a text in ASCII.\<close>

definition utf16 :: "string \<Rightarrow> text16" where
  "utf16 s = map of_char s"

definition ex_task :: "string \<Rightarrow> date \<Rightarrow> date \<Rightarrow> string option \<Rightarrow> task" where
  "ex_task i s e g =
     \<lparr>task_id = i, task_name = i, startDate = s, endDate = e, unitId = None, groupId = g\<rparr>"

text \<open>Three tasks around the week of Sunday 2024-01-07.\<close>

definition ex_early :: task where
  "ex_early = ex_task ''early'' 19726 19730 None"

definition ex_long :: task where
  "ex_long = ex_task ''long'' 19728 19734 None"

definition ex_late :: task where
  "ex_late = ex_task ''late'' 19732 19733 None"

definition ex_grouped :: project where
  "ex_grouped = \<lparr>project_id = ''p'', project_name = ''demo'', projectStart = 19723, projectEnd = 19753,
     tasks = [ex_task ''A'' 19723 19724 (Some ''g0''), ex_task ''B'' 19727 19728 (Some ''g0''),
              ex_task ''C'' 19732 19733 None],
     units = [],
     groups = [\<lparr>group_id = ''g0'', group_name = utf16 ''old'', taskIds = [''A'', ''B''], intervals = [3]\<rparr>]\<rparr>"

definition ex_pair :: project where
  "ex_pair = \<lparr>project_id = ''p'', project_name = ''demo'', projectStart = 19723, projectEnd = 19753,
     tasks = [ex_task ''A'' 19723 19724 None, ex_task ''B'' 19727 19728 None],
     units = [], groups = []\<rparr>"

definition ex_tie :: project where
  "ex_tie = \<lparr>project_id = ''p'', project_name = ''demo'', projectStart = 19723, projectEnd = 19753,
     tasks = [ex_task ''A'' 19723 19724 None, ex_task ''B'' 19723 19725 None],
     units = [], groups = []\<rparr>"

text \<open>
  Two drags in a week grid 896 pixels wide and 128 high, the pointer going down at
  (16, 16): a day is 128 pixels wide. With these numbers every difference and every
  quotient taken below is a double itself (a multiple of 1/128 of moderate size), so
  rounding to the nearest double changes nothing and \<open>fl\<close> is the identity there.
\<close>

definition ex_move :: dragState where
  "ex_move = \<lparr>drag_task = ex_task ''A'' 19723 19724 (Some ''g0''), drag_type = Move,
     initialMouseX = 16, initialMouseY = 16, dayWidth = 128, weekHeight = 128,
     taskInitialStartDate = 19723, taskInitialEndDate = 19724,
     relatedTasks = [\<lparr>rel_id = ''A'', initialStart = 19723, initialEnd = 19724\<rparr>,
                     \<lparr>rel_id = ''B'', initialStart = 19727, initialEnd = 19728\<rparr>]\<rparr>"

definition ex_resize :: dragState where
  "ex_resize = \<lparr>drag_task = ex_task ''C'' 19732 19733 None, drag_type = ResizeStart,
     initialMouseX = 16, initialMouseY = 16, dayWidth = 128, weekHeight = 128,
     taskInitialStartDate = 19732, taskInitialEndDate = 19733,
     relatedTasks = [\<lparr>rel_id = ''C'', initialStart = 19732, initialEnd = 19733\<rparr>]\<rparr>"

definition ex_moved :: project where
  "ex_moved = ex_grouped\<lparr>tasks := [ex_task ''A'' 19728 19729 (Some ''g0''),
     ex_task ''B'' 19732 19733 (Some ''g0''), ex_task ''C'' 19732 19733 None]\<rparr>"

section \<open>Facts about the sort\<close>

lemma mset_insort_by: "mset (insort_by cmp x xs) = add_mset x (mset xs)"
  by (induction xs) auto

lemma mset_sort_by: "mset (sort_by cmp xs) = mset xs"
  by (induction xs) (auto simp: sort_by_def mset_insort_by)

section \<open>Facts about the lane packer\<close>

lemma mset_concat_placeTask:
  "mset (concat (placeTask w t lanes)) = add_mset t (mset (concat lanes))"
  by (induction lanes) auto

lemma mset_concat_foldl_placeTask:
  "mset (concat (foldl (\<lambda>lanes t. placeTask w t lanes) acc ts)) = mset ts + mset (concat acc)"
  by (induction ts arbitrary: acc) (auto simp: mset_concat_placeTask)

lemma inWeek_dates:
  "inWeek w = (\<lambda>t. max (startDate t) w \<le> min (endDate t) (w + (6 - (w + 4) mod 7)))"
  by (rule ext) (simp add: inWeek_def clampedStart_def clampedEnd_def endOfWeek_def getDay_def)

text \<open>
  C10. The lanes hold exactly the tasks of the input whose span from start date to end
  date meets the week, from \<open>weekStart\<close> to the Saturday of its week (day
  \<open>weekStart + (6 - (weekStart + 4) mod 7)\<close>, the day of the week of day \<open>d\<close> being
  \<open>(d + 4) mod 7\<close>): the span meets the week when the later of the two starts is not
  after the earlier of the two ends. Each such task is in the lanes as many times as the
  input lists it, so once when listed once; nothing is dropped or doubled, and no task
  outside the week is in a lane. For a week that starts on a Sunday, day \<open>7 * k + 3\<close>,
  the week is the days \<open>7 * k + 3\<close> to \<open>7 * k + 9\<close>.
\<close>

theorem lanes_partition_week_tasks:
  "mset (concat (arrangeTasksInLanes ts weekStart)) =
     mset (filter (\<lambda>t. max (startDate t) weekStart
                          \<le> min (endDate t) (weekStart + (6 - (weekStart + 4) mod 7))) ts) \<and>
   mset (concat (arrangeTasksInLanes ts (7 * k + 3))) =
     mset (filter (\<lambda>t. max (startDate t) (7 * k + 3) \<le> min (endDate t) (7 * k + 9)) ts)"
proof -
  have all: "mset (concat (arrangeTasksInLanes ts w)) =
     mset (filter (\<lambda>t. max (startDate t) w \<le> min (endDate t) (w + (6 - (w + 4) mod 7))) ts)" for w
    by (simp add: arrangeTasksInLanes_def sortedTasks_def mset_concat_foldl_placeTask mset_sort_by
        inWeek_dates)
  have "(7 * k + 3 + 4) mod 7 = (0::int)" by presburger
  then have "7 * k + 3 + (6 - (7 * k + 3 + 4) mod 7) = 7 * k + 9" by simp
  with all [of "7 * k + 3"]
  have "mset (concat (arrangeTasksInLanes ts (7 * k + 3))) =
     mset (filter (\<lambda>t. max (startDate t) (7 * k + 3) \<le> min (endDate t) (7 * k + 9)) ts)"
    by (simp only:)
  with all [of weekStart] show ?thesis by (rule conjI)
qed

lemma set_insort_by: "set (insort_by cmp x xs) = insert x (set xs)"
  by (induction xs) auto

lemma sorted_insort_by:
  assumes tr: "\<And>a b c. cmp a b \<le> 0 \<Longrightarrow> cmp b c \<le> 0 \<Longrightarrow> cmp a c \<le> 0"
    and tot: "\<And>a b. cmp a b \<le> 0 \<or> cmp b a \<le> 0"
  shows "sorted_wrt (\<lambda>a b. cmp a b \<le> 0) xs \<Longrightarrow>
         sorted_wrt (\<lambda>a b. cmp a b \<le> 0) (insort_by cmp x xs)"
proof (induction xs)
  case Nil
  then show ?case by simp
next
  case (Cons y ys)
  show ?case
  proof (cases "cmp x y \<le> 0")
    case True
    with Cons.prems tr show ?thesis by auto
  next
    case False
    with tot have "cmp y x \<le> 0" by blast
    with False Cons show ?thesis by (auto simp: set_insort_by)
  qed
qed

lemma sorted_sort_by:
  assumes tr: "\<And>a b c. cmp a b \<le> 0 \<Longrightarrow> cmp b c \<le> 0 \<Longrightarrow> cmp a c \<le> 0"
    and tot: "\<And>a b. cmp a b \<le> 0 \<or> cmp b a \<le> 0"
  shows "sorted_wrt (\<lambda>a b. cmp a b \<le> 0) (sort_by cmp xs)"
proof (induction xs)
  case Nil
  then show ?case by (simp add: sort_by_def)
next
  case (Cons x xs)
  have "sort_by cmp (x # xs) = insort_by cmp x (sort_by cmp xs)"
    by (simp add: sort_by_def)
  with Cons sorted_insort_by [of cmp, OF tr tot] show ?case by simp
qed

lemma laneOrder_le:
  "laneOrder a b \<le> 0 \<longleftrightarrow>
     startDate a < startDate b \<or> (startDate a = startDate b \<and> endDate b \<le> endDate a)"
  by (auto simp: laneOrder_def differenceInDays_def Let_def)

lemma sorted_sortedTasks:
  "sorted_wrt (\<lambda>a b. startDate a < startDate b \<or> (startDate a = startDate b \<and> endDate b \<le> endDate a))
     (sortedTasks ts w)"
proof -
  have "sorted_wrt (\<lambda>a b. laneOrder a b \<le> 0) (sort_by laneOrder (filter (inWeek w) ts))"
    by (rule sorted_sort_by) (auto simp: laneOrder_le)
  then show ?thesis by (simp add: sortedTasks_def laneOrder_le)
qed

lemma placeTask_new_lane:
  "\<forall>lane\<in>set lanes. hasOverlap w t lane \<Longrightarrow> placeTask w t lanes = lanes @ [[t]]"
  by (induction lanes) auto

lemma placeTask_first_fit:
  "i < length lanes \<Longrightarrow> \<not> hasOverlap w t (lanes ! i) \<Longrightarrow> \<forall>j<i. hasOverlap w t (lanes ! j) \<Longrightarrow>
   placeTask w t lanes = lanes[i := lanes ! i @ [t]]"
proof (induction lanes arbitrary: i)
  case Nil
  then show ?case by simp
next
  case (Cons lane rest)
  show ?case
  proof (cases i)
    case 0
    with Cons.prems show ?thesis by simp
  next
    case (Suc k)
    with Cons.prems have "hasOverlap w t lane" by auto
    moreover have "placeTask w t rest = rest[k := rest ! k @ [t]]"
      using Cons.prems Suc by (intro Cons.IH) auto
    ultimately show ?thesis using Suc by simp
  qed
qed

text \<open>Inside a lane no task overlaps an earlier one: the invariant of the packing loop.\<close>

lemma lanes_placeTask:
  "\<forall>lane\<in>set lanes. sorted_wrt (\<lambda>a b. \<not> overlapsInWeek w b a) lane \<Longrightarrow>
   \<forall>lane\<in>set (placeTask w t lanes). sorted_wrt (\<lambda>a b. \<not> overlapsInWeek w b a) lane"
  by (induction lanes) (auto simp: sorted_wrt_append hasOverlap_def list_ex_iff)

lemma lanes_foldl_placeTask:
  "\<forall>lane\<in>set acc. sorted_wrt (\<lambda>a b. \<not> overlapsInWeek w b a) lane \<Longrightarrow>
   \<forall>lane\<in>set (foldl (\<lambda>lanes t. placeTask w t lanes) acc ts).
      sorted_wrt (\<lambda>a b. \<not> overlapsInWeek w b a) lane"
proof (induction ts arbitrary: acc)
  case Nil
  then show ?case by simp
next
  case (Cons t ts)
  from Cons.prems have "\<forall>lane\<in>set (placeTask w t acc). sorted_wrt (\<lambda>a b. \<not> overlapsInWeek w b a) lane"
    by (rule lanes_placeTask)
  then show ?case using Cons.IH by simp
qed

lemma overlapsInWeek_sym: "overlapsInWeek w a b \<longleftrightarrow> overlapsInWeek w b a"
  by (auto simp: overlapsInWeek_def)

lemmas lane_eval = sort_by_def laneOrder_def differenceInDays_def inWeek_def clampedStart_def
  clampedEnd_def endOfWeek_def getDay_def overlapsInWeek_def hasOverlap_def sortedTasks_def
  arrangeTasksInLanes_def ex_task_def ex_early_def ex_long_def ex_late_def

text \<open>
  C8. In every lane the packer returns for a week, two tasks at different places of the
  lane never overlap, overlap being \<open>max(startA, startB) <= min(endA, endB)\<close> on the
  spans cut to the week.
\<close>

theorem lanes_no_overlap:
  "\<forall>lane\<in>set (arrangeTasksInLanes ts w). \<forall>i<length lane. \<forall>j<length lane. i \<noteq> j \<longrightarrow>
     \<not> (max (clampedStart w (lane ! i)) (clampedStart w (lane ! j))
          \<le> min (clampedEnd w (lane ! i)) (clampedEnd w (lane ! j)))"
proof (intro ballI allI impI)
  fix lane i j
  assume lane: "lane \<in> set (arrangeTasksInLanes ts w)"
    and ij: "i < length lane" "j < length lane" "i \<noteq> j"
  have "\<forall>lane\<in>set (arrangeTasksInLanes ts w). sorted_wrt (\<lambda>a b. \<not> overlapsInWeek w b a) lane"
    unfolding arrangeTasksInLanes_def by (rule lanes_foldl_placeTask) simp
  with lane have sw: "sorted_wrt (\<lambda>a b. \<not> overlapsInWeek w b a) lane"
    by simp
  have "\<not> overlapsInWeek w (lane ! i) (lane ! j)"
  proof (cases "i < j")
    case True
    with sw ij have "\<not> overlapsInWeek w (lane ! j) (lane ! i)"
      by (simp add: sorted_wrt_iff_nth_less)
    then show ?thesis by (simp add: overlapsInWeek_sym)
  next
    case False
    with ij have "j < i" by simp
    with sw ij show ?thesis by (simp add: sorted_wrt_iff_nth_less)
  qed
  then show "\<not> (max (clampedStart w (lane ! i)) (clampedStart w (lane ! j))
          \<le> min (clampedEnd w (lane ! i)) (clampedEnd w (lane ! j)))"
    by (auto simp: overlapsInWeek_def)
qed

text \<open>Three tasks in the week of 2024-01-07: the two that share a lane do not overlap.\<close>

theorem lanes_no_overlap_witness:
  "arrangeTasksInLanes [ex_long, ex_early, ex_late] 19729 = [[ex_early, ex_late], [ex_long]] \<and>
   \<not> (max (clampedStart 19729 ex_early) (clampedStart 19729 ex_late)
        \<le> min (clampedEnd 19729 ex_early) (clampedEnd 19729 ex_late))"
proof -
  have lanes: "arrangeTasksInLanes [ex_long, ex_early, ex_late] 19729 = [[ex_early, ex_late], [ex_long]]"
    by (simp add: lane_eval)
  have "[ex_early, ex_late] \<in> set (arrangeTasksInLanes [ex_long, ex_early, ex_late] 19729)"
    by (simp add: lanes)
  with lanes_no_overlap [of "[ex_long, ex_early, ex_late]" 19729]
  have "\<forall>i<length [ex_early, ex_late]. \<forall>j<length [ex_early, ex_late]. i \<noteq> j \<longrightarrow>
     \<not> (max (clampedStart 19729 ([ex_early, ex_late] ! i)) (clampedStart 19729 ([ex_early, ex_late] ! j))
          \<le> min (clampedEnd 19729 ([ex_early, ex_late] ! i)) (clampedEnd 19729 ([ex_early, ex_late] ! j)))"
    by (rule bspec)
  from this [rule_format, of 0 1]
  have "\<not> (max (clampedStart 19729 ex_early) (clampedStart 19729 ex_late)
        \<le> min (clampedEnd 19729 ex_early) (clampedEnd 19729 ex_late))"
    by simp
  with lanes show ?thesis by simp
qed

text \<open>
  C7, as the code has it. The tasks meeting the week are processed sorted by their own
  start date ascending, ties broken by their own end date descending (the dates are not
  cut to the week for the sort). Each task goes to the first lane, in creation order,
  none of whose members overlaps it within the week; a new lane is appended at the end
  exactly when every existing lane has an overlapping member.
\<close>

theorem lanes_first_fit:
  "mset (sortedTasks ts w) = mset (filter (inWeek w) ts) \<and>
   sorted_wrt (\<lambda>a b. startDate a < startDate b \<or> (startDate a = startDate b \<and> endDate b \<le> endDate a))
     (sortedTasks ts w) \<and>
   arrangeTasksInLanes ts w = foldl (\<lambda>lanes t. placeTask w t lanes) [] (sortedTasks ts w) \<and>
   (\<forall>lane t. hasOverlap w t lane \<longleftrightarrow> (\<exists>e\<in>set lane. overlapsInWeek w t e)) \<and>
   (\<forall>lanes t i. i < length lanes \<and> \<not> hasOverlap w t (lanes ! i) \<and> (\<forall>j<i. hasOverlap w t (lanes ! j))
      \<longrightarrow> placeTask w t lanes = lanes[i := lanes ! i @ [t]]) \<and>
   (\<forall>lanes t. (\<forall>lane\<in>set lanes. hasOverlap w t lane) \<longrightarrow> placeTask w t lanes = lanes @ [[t]])"
proof (intro conjI allI impI)
  show "mset (sortedTasks ts w) = mset (filter (inWeek w) ts)"
    by (simp add: sortedTasks_def mset_sort_by)
  show "sorted_wrt (\<lambda>a b. startDate a < startDate b \<or> (startDate a = startDate b \<and> endDate b \<le> endDate a))
     (sortedTasks ts w)"
    by (rule sorted_sortedTasks)
  show "arrangeTasksInLanes ts w = foldl (\<lambda>lanes t. placeTask w t lanes) [] (sortedTasks ts w)"
    by (simp add: arrangeTasksInLanes_def)
  show "hasOverlap w t lane \<longleftrightarrow> (\<exists>e\<in>set lane. overlapsInWeek w t e)" for t lane
    by (simp add: hasOverlap_def list_ex_iff)
  show "placeTask w t lanes = lanes[i := lanes ! i @ [t]]"
    if "i < length lanes \<and> \<not> hasOverlap w t (lanes ! i) \<and> (\<forall>j<i. hasOverlap w t (lanes ! j))"
    for lanes t i
    using that by (simp add: placeTask_first_fit)
  show "placeTask w t lanes = lanes @ [[t]]" if "\<forall>lane\<in>set lanes. hasOverlap w t lane" for lanes t
    using that by (rule placeTask_new_lane)
qed

text \<open>A task that fits the second lane, and a task that needs a new lane.\<close>

theorem lanes_first_fit_witness:
  "placeTask 19729 ex_late [[ex_long], [ex_early]] = [[ex_long], [ex_early, ex_late]] \<and>
   placeTask 19729 ex_long [[ex_early]] = [[ex_early], [ex_long]]"
proof -
  have a: "(1::nat) < length [[ex_long], [ex_early]] \<and>
      \<not> hasOverlap 19729 ex_late ([[ex_long], [ex_early]] ! 1) \<and>
      (\<forall>j<1. hasOverlap 19729 ex_late ([[ex_long], [ex_early]] ! j))"
    by (simp add: lane_eval)
  have b: "\<forall>lane\<in>set [[ex_early]]. hasOverlap 19729 ex_long lane"
    by (simp add: lane_eval)
  note ff = lanes_first_fit [of "[]" 19729]
  from ff have "placeTask 19729 ex_late [[ex_long], [ex_early]] =
      [[ex_long], [ex_early]][1 := [[ex_long], [ex_early]] ! 1 @ [ex_late]]"
    using a by blast
  moreover from ff have "placeTask 19729 ex_long [[ex_early]] = [[ex_early]] @ [[ex_long]]"
    using b by blast
  ultimately show ?thesis by simp
qed

text \<open>
  C7 as stated fails: two tasks that begin before the week have the same start once cut
  to the week, and the one whose end inside the week is earlier is still processed
  first and gets the first lane.
\<close>

theorem lanes_clamped_sort_counterexample:
  "sortedTasks [ex_long, ex_early] 19729 = [ex_early, ex_long] \<and>
   clampedStart 19729 ex_early = clampedStart 19729 ex_long \<and>
   clampedEnd 19729 ex_early < clampedEnd 19729 ex_long \<and>
   \<not> sorted_wrt (\<lambda>a b. clampedStart 19729 a < clampedStart 19729 b \<or>
          (clampedStart 19729 a = clampedStart 19729 b \<and> clampedEnd 19729 b \<le> clampedEnd 19729 a))
        (sortedTasks [ex_long, ex_early] 19729) \<and>
   arrangeTasksInLanes [ex_long, ex_early] 19729 = [[ex_early], [ex_long]]"
  by (simp add: lane_eval)

section \<open>Facts about the group model\<close>

lemmas group_eval = createGroup_def cleanGroup_def findTasks_def ex_grouped_def ex_pair_def ex_tie_def ex_task_def Let_def taskMap_def
   gapsOf_def sort_by_def startOrder_def differenceInDays_def handleUnlinkTask_def

lemma length_sort_by: "length (sort_by cmp xs) = length xs"
  using mset_sort_by [of cmp xs] by (rule mset_eq_length)

lemma length_map_filter_le: "length (List.map_filter f xs) \<le> length xs"
  by (induction xs) (auto split: option.splits)

lemma length_findTasks_le: "length (findTasks ts ids) \<le> length ids"
  by (simp add: findTasks_def length_map_filter_le)

lemma map_task_id_findTasks:
  "map task_id (findTasks ts ids) = filter (\<lambda>i. i \<in> task_id ` set ts) ids"
proof (induction ids)
  case Nil
  then show ?case by (simp add: findTasks_def)
next
  case (Cons i ids)
  show ?case
  proof (cases "find (\<lambda>t. task_id t = i) ts")
    case None
    then have "i \<notin> task_id ` set ts" by (auto simp: find_None_iff)
    with None Cons show ?thesis by (simp add: findTasks_def)
  next
    case (Some t)
    then have "task_id t = i" "t \<in> set ts" by (auto simp: find_Some_iff)
    then have "i \<in> task_id ` set ts" by auto
    with Some Cons \<open>task_id t = i\<close> show ?thesis by (simp add: findTasks_def)
  qed
qed

lemma insort_by_startOrder: "insort_by startOrder x xs = insort_key startDate x xs"
  by (induction xs) (auto simp: startOrder_def)

lemma sort_by_startOrder: "sort_by startOrder xs = sort_key startDate xs"
  by (induction xs) (auto simp: sort_by_def insort_by_startOrder)

lemma length_gapsOf: "length (gapsOf xs) = length xs - 1"
  by (simp add: gapsOf_def)

lemma nth_gapsOf:
  "i < length xs - 1 \<Longrightarrow> gapsOf xs ! i = max 0 (startDate (xs ! (i + 1)) - endDate (xs ! i))"
  by (simp add: gapsOf_def differenceInDays_def nth_butlast)

lemma gapsOf_nonneg: "\<forall>d\<in>set (gapsOf xs). 0 \<le> d"
  by (auto simp: gapsOf_def)

lemma gapsOf_short: "length xs \<le> 1 \<Longrightarrow> gapsOf xs = []"
  using length_gapsOf [of xs] by simp

text \<open>
  C9. With fewer than two selected ids the creation of a group fails with
  \<open>InsufficientSelection\<close>, and the handler leaves the project, tasks and groups
  alike, as it was: when the view is unlocked and a name was entered it only adds the
  notice of the failure; when the view is locked or no name was entered it does nothing
  at all.
\<close>

theorem createGroup_insufficient_selection:
  assumes "length (selectedTaskIds s) < 2"
  shows "createGroup groupName newGroupId (selectedTaskIds s) (project s) = Inl InsufficientSelection \<and>
         project (handleCreateGroup isLocked prompted newGroupId s) = project s \<and>
         (\<not> isLocked \<and> prompted = Some groupName \<and> \<not> blank groupName \<longrightarrow>
            handleCreateGroup isLocked prompted newGroupId s =
              s\<lparr>notifications := notifications s @ [Info InsufficientSelection]\<rparr>)"
proof -
  have short: "length (sort_by startOrder (findTasks (tasks (project s)) (selectedTaskIds s))) < 2"
    using assms length_findTasks_le [of "tasks (project s)" "selectedTaskIds s"]
    by (simp add: length_sort_by)
  then have fails: "createGroup n newGroupId (selectedTaskIds s) (project s) = Inl InsufficientSelection" for n
    by (simp add: createGroup_def)
  then show ?thesis
    by (simp add: handleCreateGroup_def split: option.splits)
qed

text \<open>One selected task, view unlocked, a name entered: the failure is reported.\<close>

theorem createGroup_insufficient_selection_witness:
  "handleCreateGroup False (Some (utf16 ''chain'')) ''g1''
     \<lparr>project = ex_grouped, selectedTaskIds = [''C''], notifications = []\<rparr>
   = \<lparr>project = ex_grouped, selectedTaskIds = [''C''], notifications = [Info InsufficientSelection]\<rparr>"
proof -
  have "length (selectedTaskIds \<lparr>project = ex_grouped, selectedTaskIds = [''C''], notifications = []\<rparr>) < 2"
    by simp
  moreover have "\<not> blank (utf16 ''chain'')"
    by (simp add: blank_def utf16_def isWhiteSpace_def)
  ultimately show ?thesis
    using createGroup_insufficient_selection [of _ "utf16 ''chain''" "''g1''" False "Some (utf16 ''chain'')"]
    by simp
qed

lemma cleanGroup_None:
  "cleanGroup ts ids g = None \<longleftrightarrow> filter (\<lambda>i. i \<notin> set ids) (taskIds g) = []"
  by (simp add: cleanGroup_def Let_def)

lemma length_filter_same: "length (filter P xs) = length xs \<Longrightarrow> filter P xs = xs"
proof (induction xs)
  case Nil
  then show ?case by simp
next
  case (Cons x xs)
  show ?case
  proof (cases "P x")
    case True
    with Cons show ?thesis by simp
  next
    case False
    with Cons.prems have "length (filter P xs) = Suc (length xs)" by simp
    with length_filter_le [of P xs] show ?thesis by simp
  qed
qed

lemma cleanGroup_Some:
  "cleanGroup ts ids g = Some g' \<Longrightarrow>
     group_id g' = group_id g \<and> taskIds g' = filter (\<lambda>i. i \<notin> set ids) (taskIds g) \<and> taskIds g' \<noteq> []"
  by (auto simp: cleanGroup_def Let_def length_filter_same split: if_splits)

lemma cleanGroup_singleton:
  assumes "length (filter (\<lambda>i. i \<notin> set ids) (taskIds g)) = 1"
    and "filter (\<lambda>i. i \<notin> set ids) (taskIds g) \<noteq> taskIds g"
  shows "cleanGroup ts ids g = Some (g\<lparr>taskIds := filter (\<lambda>i. i \<notin> set ids) (taskIds g), intervals := []\<rparr>)"
proof -
  let ?rem = "filter (\<lambda>i. i \<notin> set ids) (taskIds g)"
  have "length (sort_by startOrder (findTasks ts ?rem)) \<le> 1"
    using length_findTasks_le [of ts ?rem] assms(1) by (simp add: length_sort_by)
  moreover have "length ?rem \<noteq> length (taskIds g)"
    using assms(2) length_filter_same by metis
  moreover have "?rem \<noteq> []"
    using assms(1) by auto
  ultimately show ?thesis
    by (simp add: cleanGroup_def Let_def)
qed

lemma map_filter_cleanGroup:
  "map (\<lambda>g. (group_id g, taskIds g)) (List.map_filter (cleanGroup ts ids) gs) =
   map (\<lambda>g. (group_id g, filter (\<lambda>i. i \<notin> set ids) (taskIds g)))
     (filter (\<lambda>g. \<exists>i\<in>set (taskIds g). i \<notin> set ids) gs)"
proof (induction gs)
  case Nil
  then show ?case by simp
next
  case (Cons g gs)
  show ?case
  proof (cases "cleanGroup ts ids g")
    case None
    then have "\<not> (\<exists>i\<in>set (taskIds g). i \<notin> set ids)"
      by (simp add: cleanGroup_None filter_empty_conv)
    with None Cons show ?thesis by simp
  next
    case (Some g')
    from cleanGroup_Some [OF Some] have g': "group_id g' = group_id g"
      "taskIds g' = filter (\<lambda>i. i \<notin> set ids) (taskIds g)" "taskIds g' \<noteq> []" by auto
    then have "\<exists>i\<in>set (taskIds g). i \<notin> set ids"
      by (auto simp: filter_empty_conv)
    with Some Cons g' show ?thesis by simp
  qed
qed

lemma set_map_filter: "set (List.map_filter f xs) = {y. \<exists>x\<in>set xs. f x = Some y}"
  by (induction xs) (auto split: option.splits)

lemma createGroup_Inr:
  assumes "createGroup groupName newGroupId selected p = Inr p'"
  shows "p' = p\<lparr>tasks := map (\<lambda>t. if task_id t \<in> set (map task_id (sort_by startOrder (findTasks (tasks p) selected)))
                                  then t\<lparr>groupId := Some newGroupId\<rparr> else t) (tasks p),
                 groups := List.map_filter (cleanGroup (tasks p) (map task_id (sort_by startOrder (findTasks (tasks p) selected)))) (groups p)
                    @ [\<lparr>group_id = newGroupId, group_name = groupName,
                        taskIds = map task_id (sort_by startOrder (findTasks (tasks p) selected)),
                        intervals = gapsOf (sort_by startOrder (findTasks (tasks p) selected))\<rparr>]\<rparr>"
    and "2 \<le> length (findTasks (tasks p) selected)"
  using assms by (auto simp: createGroup_def Let_def length_sort_by split: if_splits)

lemma createGroup_succeeds:
  assumes "2 \<le> length (findTasks (tasks p) selected)"
  shows "createGroup groupName newGroupId selected p =
     Inr (p\<lparr>tasks := map (\<lambda>t. if task_id t \<in> set (map task_id (sort_by startOrder (findTasks (tasks p) selected)))
                                  then t\<lparr>groupId := Some newGroupId\<rparr> else t) (tasks p),
                 groups := List.map_filter (cleanGroup (tasks p) (map task_id (sort_by startOrder (findTasks (tasks p) selected)))) (groups p)
                    @ [\<lparr>group_id = newGroupId, group_name = groupName,
                        taskIds = map task_id (sort_by startOrder (findTasks (tasks p) selected)),
                        intervals = gapsOf (sort_by startOrder (findTasks (tasks p) selected))\<rparr>]\<rparr>)"
  using assms by (auto simp: createGroup_def Let_def length_sort_by split: if_splits)

text \<open>
  C1, as the code has it. After a group is created, the old groups that are left are
  exactly the old groups with at least one member outside the new group, in their
  order, each with the members of the new group removed from its \<open>taskIds\<close>: an old
  group is dropped only when no member is left. An old group that lost a member and is
  left with exactly one is kept, with that member and no intervals.
\<close>

theorem createGroup_purges_old_groups:
  assumes "createGroup groupName newGroupId selected p = Inr p'"
  shows "groups p' \<noteq> [] \<and>
    (let ids = taskIds (last (groups p')) in
      map (\<lambda>g. (group_id g, taskIds g)) (butlast (groups p')) =
        map (\<lambda>g. (group_id g, filter (\<lambda>i. i \<notin> set ids) (taskIds g)))
          (filter (\<lambda>g. \<exists>i\<in>set (taskIds g). i \<notin> set ids) (groups p)) \<and>
      (\<forall>g\<in>set (groups p).
         length (filter (\<lambda>i. i \<notin> set ids) (taskIds g)) = 1 \<and>
         filter (\<lambda>i. i \<notin> set ids) (taskIds g) \<noteq> taskIds g \<longrightarrow>
         g\<lparr>taskIds := filter (\<lambda>i. i \<notin> set ids) (taskIds g), intervals := []\<rparr> \<in> set (butlast (groups p'))))"
proof -
  let ?ids = "map task_id (sort_by startOrder (findTasks (tasks p) selected))"
  from createGroup_Inr(1) [OF assms]
  have gs: "groups p' = List.map_filter (cleanGroup (tasks p) ?ids) (groups p)
                    @ [\<lparr>group_id = newGroupId, group_name = groupName, taskIds = ?ids,
                        intervals = gapsOf (sort_by startOrder (findTasks (tasks p) selected))\<rparr>]"
    by simp
  have "g\<lparr>taskIds := filter (\<lambda>i. i \<notin> set ?ids) (taskIds g), intervals := []\<rparr>
          \<in> set (List.map_filter (cleanGroup (tasks p) ?ids) (groups p))"
    if "g \<in> set (groups p)" "length (filter (\<lambda>i. i \<notin> set ?ids) (taskIds g)) = 1"
       "filter (\<lambda>i. i \<notin> set ?ids) (taskIds g) \<noteq> taskIds g" for g
    using that cleanGroup_singleton [of ?ids g "tasks p"] by (auto simp: set_map_filter)
  then show ?thesis
    unfolding gs Let_def by (simp add: map_filter_cleanGroup)
qed

text \<open>The same call, through the theorem: the old group is kept with its one member.\<close>

theorem createGroup_purges_old_groups_witness:
  "createGroup (utf16 ''new'') ''g1'' [''B'', ''C''] ex_grouped \<noteq> Inl InsufficientSelection \<and>
   map (\<lambda>g. (group_id g, taskIds g)) (butlast (groups (projr (createGroup (utf16 ''new'') ''g1'' [''B'', ''C''] ex_grouped))))
     = [(''g0'', [''A''])]"
proof -
  have eq: "createGroup (utf16 ''new'') ''g1'' [''B'', ''C''] ex_grouped =
     Inr (ex_grouped\<lparr>
       tasks := [ex_task ''A'' 19723 19724 (Some ''g0''), ex_task ''B'' 19727 19728 (Some ''g1''),
                 ex_task ''C'' 19732 19733 (Some ''g1'')],
       groups := [\<lparr>group_id = ''g0'', group_name = utf16 ''old'', taskIds = [''A''], intervals = []\<rparr>,
                  \<lparr>group_id = ''g1'', group_name = utf16 ''new'', taskIds = [''B'', ''C''], intervals = [4]\<rparr>]\<rparr>)"
    by (simp add: group_eval)
  from createGroup_purges_old_groups [OF eq] eq show ?thesis
    by (simp add: ex_grouped_def)
qed

text \<open>
  C1 as stated fails: the old group of A and B loses B to the new group and stays in the
  collection with A as its only member.
\<close>

theorem createGroup_keeps_singleton_counterexample:
  "createGroup (utf16 ''new'') ''g1'' [''B'', ''C''] ex_grouped =
     Inr (ex_grouped\<lparr>
       tasks := [ex_task ''A'' 19723 19724 (Some ''g0''), ex_task ''B'' 19727 19728 (Some ''g1''),
                 ex_task ''C'' 19732 19733 (Some ''g1'')],
       groups := [\<lparr>group_id = ''g0'', group_name = utf16 ''old'', taskIds = [''A''], intervals = []\<rparr>,
                  \<lparr>group_id = ''g1'', group_name = utf16 ''new'', taskIds = [''B'', ''C''], intervals = [4]\<rparr>]\<rparr>)"
  by (simp add: group_eval)

text \<open>
  C6, as the code has it. When at least two of the selected ids are ids of tasks, the
  group is created and appended; its \<open>taskIds\<close> are the ids of the selected tasks
  sorted by start date ascending, tasks with the same start date staying in the order of
  selection; \<open>intervals\<close> has one entry fewer than \<open>taskIds\<close>, entry \<open>i\<close> being
  \<open>max 0\<close> of the days from the end of task \<open>i\<close> to the start of task \<open>i + 1\<close>. For
  A (2024-01-01 to 01-02) and B (2024-01-05 to 01-06) this gives \<open>[A, B]\<close> and \<open>[3]\<close>.
\<close>

theorem createGroup_new_group:
  fixes p :: project and selected :: "string list"
  defines "found \<equiv> findTasks (tasks p) selected"
  defines "sel \<equiv> sort_by startOrder found"
  assumes "2 \<le> length found"
  shows "\<exists>p'. createGroup groupName newGroupId selected p = Inr p' \<and> groups p' \<noteq> [] \<and>
      group_id (last (groups p')) = newGroupId \<and>
      taskIds (last (groups p')) = map task_id sel \<and>
      mset (taskIds (last (groups p'))) = mset (filter (\<lambda>i. i \<in> task_id ` set (tasks p)) selected) \<and>
      sorted (map startDate sel) \<and>
      (\<forall>d. filter (\<lambda>t. startDate t = d) sel = filter (\<lambda>t. startDate t = d) found) \<and>
      length (intervals (last (groups p'))) = length (taskIds (last (groups p'))) - 1 \<and>
      (\<forall>i<length (intervals (last (groups p'))).
         intervals (last (groups p')) ! i =
           max 0 (differenceInDays (startDate (sel ! (i + 1))) (endDate (sel ! i)))) \<and>
      createGroup groupName newGroupId [''A'', ''B''] ex_pair =
        Inr (ex_pair\<lparr>
          tasks := [ex_task ''A'' 19723 19724 (Some newGroupId), ex_task ''B'' 19727 19728 (Some newGroupId)],
          groups := [\<lparr>group_id = newGroupId, group_name = groupName,
                      taskIds = [''A'', ''B''], intervals = [3]\<rparr>]\<rparr>)"
proof -
  have example: "createGroup groupName newGroupId [''A'', ''B''] ex_pair =
        Inr (ex_pair\<lparr>
          tasks := [ex_task ''A'' 19723 19724 (Some newGroupId), ex_task ''B'' 19727 19728 (Some newGroupId)],
          groups := [\<lparr>group_id = newGroupId, group_name = groupName,
                      taskIds = [''A'', ''B''], intervals = [3]\<rparr>]\<rparr>)"
    by (simp add: group_eval)
  have "mset (map task_id sel) = mset (map task_id found)"
    unfolding sel_def using mset_sort_by [of startOrder found] by (metis mset_map)
  then have ms: "mset (map task_id sel) = mset (filter (\<lambda>i. i \<in> task_id ` set (tasks p)) selected)"
    by (simp add: found_def map_task_id_findTasks)
  have so: "sorted (map startDate sel)"
    by (simp add: sel_def sort_by_startOrder)
  have st: "filter (\<lambda>t. startDate t = d) sel = filter (\<lambda>t. startDate t = d) found" for d
    by (simp add: sel_def sort_by_startOrder sort_key_stable)
  have nth: "gapsOf sel ! i = max 0 (differenceInDays (startDate (sel ! (i + 1))) (endDate (sel ! i)))"
    if "i < length (gapsOf sel)" for i
    using that nth_gapsOf [of i sel] by (simp add: length_gapsOf differenceInDays_def)
  from assms(3) show ?thesis
    unfolding createGroup_succeeds [OF assms(3) [unfolded found_def]]
    using ms so st nth example by (simp add: sel_def [symmetric] found_def [symmetric] length_gapsOf)
qed

text \<open>The scenario of the specification: A and B give \<open>[A, B]\<close> and \<open>[3]\<close>.\<close>

theorem createGroup_new_group_witness:
  "createGroup (utf16 ''chain'') ''g1'' [''A'', ''B''] ex_pair =
     Inr (ex_pair\<lparr>
       tasks := [ex_task ''A'' 19723 19724 (Some ''g1''), ex_task ''B'' 19727 19728 (Some ''g1'')],
       groups := [\<lparr>group_id = ''g1'', group_name = utf16 ''chain'', taskIds = [''A'', ''B''], intervals = [3]\<rparr>]\<rparr>)"
proof -
  have "2 \<le> length (findTasks (tasks ex_pair) [''A'', ''B''])"
    by (simp add: group_eval)
  from createGroup_new_group [OF this, of "utf16 ''chain''" "''g1''"]
  obtain p' where "createGroup (utf16 ''chain'') ''g1'' [''A'', ''B''] ex_pair = Inr p'"
    by blast
  then show ?thesis by (simp add: group_eval)
qed

text \<open>
  C6 as stated fails on a tie: A and B start on the same day, B was selected first, and
  the group lists B before A.
\<close>

theorem createGroup_tie_order_counterexample:
  "map startDate (tasks ex_tie) = [19723, 19723] \<and>
   createGroup (utf16 ''chain'') ''g1'' [''B'', ''A''] ex_tie =
     Inr (ex_tie\<lparr>
       tasks := [ex_task ''A'' 19723 19724 (Some ''g1''), ex_task ''B'' 19723 19725 (Some ''g1'')],
       groups := [\<lparr>group_id = ''g1'', group_name = utf16 ''chain'', taskIds = [''B'', ''A''], intervals = [0]\<rparr>]\<rparr>)"
  by (simp add: group_eval)

lemma map_group_id_replace:
  "map group_id (map (\<lambda>g. if group_id g = group_id u then u else g) gs) = map group_id gs"
  by (rule nth_equalityI) simp_all

lemma map_task_id_unlink:
  "map task_id (map (\<lambda>t. if task_id t = taskId then t\<lparr>groupId := None\<rparr> else t) ts) = map task_id ts"
  by (rule nth_equalityI) simp_all

lemma unlinked_cleared:
  "\<forall>t\<in>set (map (\<lambda>t. if task_id t = taskId then t\<lparr>groupId := None\<rparr> else t) ts).
     task_id t = taskId \<longrightarrow> groupId t = None"
proof (intro ballI impI)
  fix t
  assume "t \<in> set (map (\<lambda>t. if task_id t = taskId then t\<lparr>groupId := None\<rparr> else t) ts)"
    and t: "task_id t = taskId"
  then have "t \<in> (\<lambda>t. if task_id t = taskId then t\<lparr>groupId := None\<rparr> else t) ` set ts"
    by (simp only: set_map)
  then obtain u where u: "u \<in> set ts" "t = (if task_id u = taskId then u\<lparr>groupId := None\<rparr> else u)"
    by (rule imageE)
  show "groupId t = None"
  proof (cases "task_id u = taskId")
    case True
    with u show ?thesis by simp
  next
    case False
    with u t show ?thesis by simp
  qed
qed

text \<open>
  C2, as the code has it. Unlinking a task from an existing group, in an unlocked view:
  when no member remains the group is deleted; when members remain the group stays;
  when exactly one remains the group is kept with that member and no intervals, and
  every other task, the remaining member included, is left as it was. The
  \<open>groupId\<close> of the unlinked task is cleared in every case.
\<close>

theorem unlinkTask_remaining_members:
  fixes p :: project and taskId gid :: string and grp :: taskGroup
  defines "p' \<equiv> handleUnlinkTask False taskId gid p"
  assumes "find (\<lambda>g. group_id g = gid) (groups p) = Some grp"
  defines "remaining \<equiv> filter (\<lambda>i. i \<noteq> taskId) (taskIds grp)"
  shows "(remaining = [] \<longrightarrow> groups p' = filter (\<lambda>g. group_id g \<noteq> gid) (groups p)) \<and>
         (remaining \<noteq> [] \<longrightarrow> map group_id (groups p') = map group_id (groups p)) \<and>
         (length remaining = 1 \<longrightarrow>
            grp\<lparr>taskIds := remaining, intervals := []\<rparr> \<in> set (groups p') \<and>
            (\<forall>t\<in>set (tasks p). task_id t \<noteq> taskId \<longrightarrow> t \<in> set (tasks p'))) \<and>
         (\<forall>t\<in>set (tasks p'). task_id t = taskId \<longrightarrow> groupId t = None) \<and>
         map task_id (tasks p') = map task_id (tasks p)"
proof -
  from assms(2) have grp: "grp \<in> set (groups p)" "group_id grp = gid"
    by (auto simp: find_Some_iff)
  have short: "gapsOf (sort_by startOrder (List.map_filter (taskMap (tasks p)) remaining)) = []"
    if "length remaining = 1"
    using that length_map_filter_le [of "taskMap (tasks p)" remaining]
    by (intro gapsOf_short) (simp add: length_sort_by)
  have a: "remaining = [] \<longrightarrow> groups p' = filter (\<lambda>g. group_id g \<noteq> gid) (groups p)"
    by (simp add: p'_def handleUnlinkTask_def assms(2) Let_def remaining_def)
  have b: "remaining \<noteq> [] \<longrightarrow> map group_id (groups p') = map group_id (groups p)"
  proof
    assume "remaining \<noteq> []"
    then have "groups p' = map (\<lambda>g. if group_id g = gid
        then grp\<lparr>taskIds := remaining,
               intervals := gapsOf (sort_by startOrder (List.map_filter (taskMap (tasks p)) remaining))\<rparr>
        else g) (groups p)"
      by (simp add: p'_def handleUnlinkTask_def assms(2) Let_def remaining_def [symmetric])
    then show "map group_id (groups p') = map group_id (groups p)"
      using map_group_id_replace [of "grp\<lparr>taskIds := remaining,
               intervals := gapsOf (sort_by startOrder (List.map_filter (taskMap (tasks p)) remaining))\<rparr>" "groups p"]
        grp(2) by simp
  qed
  have c: "length remaining = 1 \<longrightarrow> grp\<lparr>taskIds := remaining, intervals := []\<rparr> \<in> set (groups p')"
  proof
    assume l: "length remaining = 1"
    then have "remaining \<noteq> []" by auto
    with short [OF l]
    have "groups p' = map (\<lambda>g. if group_id g = gid then grp\<lparr>taskIds := remaining, intervals := []\<rparr> else g) (groups p)"
      by (simp add: p'_def handleUnlinkTask_def assms(2) Let_def remaining_def [symmetric])
    moreover have "(\<lambda>g. if group_id g = gid then grp\<lparr>taskIds := remaining, intervals := []\<rparr> else g) grp
        \<in> (\<lambda>g. if group_id g = gid then grp\<lparr>taskIds := remaining, intervals := []\<rparr> else g) ` set (groups p)"
      using grp(1) by (rule imageI)
    ultimately show "grp\<lparr>taskIds := remaining, intervals := []\<rparr> \<in> set (groups p')"
      using grp(2) by simp
  qed
  have tp: "tasks p' = map (\<lambda>t. if task_id t = taskId then t\<lparr>groupId := None\<rparr> else t) (tasks p)"
    by (simp add: p'_def handleUnlinkTask_def assms(2) Let_def)
  have d: "\<forall>t\<in>set (tasks p). task_id t \<noteq> taskId \<longrightarrow> t \<in> set (tasks p')"
  proof (intro ballI impI)
    fix t assume "t \<in> set (tasks p)" "task_id t \<noteq> taskId"
    then have "(\<lambda>t. if task_id t = taskId then t\<lparr>groupId := None\<rparr> else t) t \<in> set (tasks p')"
      unfolding tp set_map by (intro imageI)
    with \<open>task_id t \<noteq> taskId\<close> show "t \<in> set (tasks p')" by simp
  qed
  have e: "\<forall>t\<in>set (tasks p'). task_id t = taskId \<longrightarrow> groupId t = None"
    unfolding tp by (rule unlinked_cleared)
  have f: "map task_id (tasks p') = map task_id (tasks p)"
    unfolding tp by (rule map_task_id_unlink)
  from c d have cd: "length remaining = 1 \<longrightarrow>
            grp\<lparr>taskIds := remaining, intervals := []\<rparr> \<in> set (groups p') \<and>
            (\<forall>t\<in>set (tasks p). task_id t \<noteq> taskId \<longrightarrow> t \<in> set (tasks p'))"
    by (intro impI conjI) (erule (1) mp, assumption)
  show ?thesis by (rule conjI [OF a conjI [OF b conjI [OF cd conjI [OF e f]]]])
qed

text \<open>The same call, through the theorem.\<close>

theorem unlinkTask_remaining_members_witness:
  "\<lparr>group_id = ''g0'', group_name = utf16 ''old'', taskIds = [''A''], intervals = []\<rparr>
      \<in> set (groups (handleUnlinkTask False ''B'' ''g0'' ex_grouped)) \<and>
   ex_task ''A'' 19723 19724 (Some ''g0'') \<in> set (tasks (handleUnlinkTask False ''B'' ''g0'' ex_grouped))"
proof -
  have f: "find (\<lambda>g. group_id g = ''g0'') (groups ex_grouped) =
      Some \<lparr>group_id = ''g0'', group_name = utf16 ''old'', taskIds = [''A'', ''B''], intervals = [3]\<rparr>"
    by (simp add: ex_grouped_def)
  from unlinkTask_remaining_members [OF f, of "''B''"] show ?thesis
    by (simp add: ex_grouped_def ex_task_def)
qed

text \<open>
  C2 as stated fails: unlinking B from the group of A and B leaves the group in the
  collection with A as its only member, and A keeps its \<open>groupId\<close>.
\<close>

theorem unlinkTask_keeps_singleton_counterexample:
  "handleUnlinkTask False ''B'' ''g0'' ex_grouped =
     ex_grouped\<lparr>
       groups := [\<lparr>group_id = ''g0'', group_name = utf16 ''old'', taskIds = [''A''], intervals = []\<rparr>],
       tasks := [ex_task ''A'' 19723 19724 (Some ''g0''), ex_task ''B'' 19727 19728 None,
                 ex_task ''C'' 19732 19733 None]\<rparr>"
  by (simp add: group_eval)

section \<open>The membership invariant is kept\<close>

lemma same_task_id:
  "distinct (map task_id ts) \<Longrightarrow> t \<in> set ts \<Longrightarrow> u \<in> set ts \<Longrightarrow> task_id t = task_id u \<Longrightarrow> t = u"
  by (meson distinct_map inj_onD)

lemma same_group_id:
  "distinct (map group_id gs) \<Longrightarrow> g \<in> set gs \<Longrightarrow> h \<in> set gs \<Longrightarrow> group_id g = group_id h \<Longrightarrow> g = h"
  by (meson distinct_map inj_onD)

lemma in_set_mapE:
  assumes "y \<in> set (map f xs)"
  obtains x where "x \<in> set xs" "y = f x"
  using assms by (simp only: set_map) (rule imageE)

lemma in_set_mapI: "x \<in> set xs \<Longrightarrow> f x \<in> set (map f xs)"
  by (simp only: set_map) (rule imageI)

lemma map_task_id_ungroup:
  "map task_id (map (\<lambda>t. if groupId t = Some gid then t\<lparr>groupId := None\<rparr> else t) ts) = map task_id ts"
  by (rule nth_equalityI) simp_all

lemma membershipOK_deleteGroup:
  assumes "membershipOK p"
  shows "membershipOK (handleDeleteGroup isLocked gid p)"
proof (cases isLocked)
  case True
  with assms show ?thesis by (simp add: handleDeleteGroup_def)
next
  case False
  let ?clr = "\<lambda>t. if groupId t = Some gid then t\<lparr>groupId := None\<rparr> else t"
  let ?ts = "map ?clr (tasks p)"
  let ?gs = "filter (\<lambda>g. group_id g \<noteq> gid) (groups p)"
  from assms have dt: "distinct (map task_id (tasks p))" and dg: "distinct (map group_id (groups p))"
    and tl: "\<And>t. t \<in> set (tasks p) \<Longrightarrow> taskLinked (groups p) t"
    and gl: "\<And>g. g \<in> set (groups p) \<Longrightarrow> groupLinked (tasks p) g"
    by (simp_all add: membershipOK_def)
  have 1: "distinct (map task_id ?ts)"
    using dt by (simp only: map_task_id_ungroup)
  have 2: "distinct (map group_id ?gs)"
    using dg by (rule distinct_map_filter)
  have 3: "taskLinked ?gs t'" if "t' \<in> set ?ts" for t'
  proof -
    from that obtain t where t: "t \<in> set (tasks p)" "t' = ?clr t" by (rule in_set_mapE)
    show ?thesis
    proof (cases "groupId t = Some gid")
      case True
      with t show ?thesis by (simp add: taskLinked_def)
    next
      case False
      with t have "t' = t" by simp
      with tl [OF t(1)] False show ?thesis
        by (auto simp: taskLinked_def split: option.splits)
    qed
  qed
  have 4: "groupLinked ?ts g" if "g \<in> set ?gs" for g
  proof -
    from that have g: "g \<in> set (groups p)" "group_id g \<noteq> gid" by simp_all
    from gl [OF g(1)] have d: "distinct (taskIds g)"
      and m: "\<And>i. i \<in> set (taskIds g) \<Longrightarrow> \<exists>t\<in>set (tasks p). task_id t = i \<and> groupId t = Some (group_id g)"
      by (simp_all add: groupLinked_def)
    have "\<exists>t'\<in>set ?ts. task_id t' = i \<and> groupId t' = Some (group_id g)" if "i \<in> set (taskIds g)" for i
    proof -
      from m [OF that] obtain t where t: "t \<in> set (tasks p)" "task_id t = i" "groupId t = Some (group_id g)"
        by blast
      with g(2) have "?clr t = t" by simp
      moreover from t(1) have "?clr t \<in> set ?ts" by (rule in_set_mapI)
      ultimately have "t \<in> set ?ts" by simp
      with t show ?thesis by blast
    qed
    with d show ?thesis by (simp only: groupLinked_def) blast
  qed
  from False have "handleDeleteGroup isLocked gid p = p\<lparr>groups := ?gs, tasks := ?ts\<rparr>"
    by (simp add: handleDeleteGroup_def Let_def)
  with 1 2 3 4 show ?thesis by (simp only: membershipOK_def) simp
qed

lemma map_group_id_replace_at:
  assumes "group_id u = gid"
  shows "map group_id (map (\<lambda>g. if group_id g = gid then u else g) gs) = map group_id gs"
proof (rule nth_equalityI)
  show "length (map group_id (map (\<lambda>g. if group_id g = gid then u else g) gs)) = length (map group_id gs)"
    by simp
  show "map group_id (map (\<lambda>g. if group_id g = gid then u else g) gs) ! i = map group_id gs ! i"
    if "i < length (map group_id (map (\<lambda>g. if group_id g = gid then u else g) gs))" for i
  proof (cases "group_id (gs ! i) = gid")
    case True
    with that assms show ?thesis by simp
  next
    case False
    with that show ?thesis by simp
  qed
qed

lemma membershipOK_unlinkTask:
  assumes ok: "membershipOK p"
    and mem: "\<exists>grp\<in>set (groups p). group_id grp = gid \<and> taskId \<in> set (taskIds grp)"
  shows "membershipOK (handleUnlinkTask isLocked taskId gid p)"
proof (cases isLocked)
  case True
  with ok show ?thesis by (simp add: handleUnlinkTask_def)
next
  case unlocked: False
  from ok have dt: "distinct (map task_id (tasks p))" and dg: "distinct (map group_id (groups p))"
    and tl: "\<And>t. t \<in> set (tasks p) \<Longrightarrow> taskLinked (groups p) t"
    and gl: "\<And>g. g \<in> set (groups p) \<Longrightarrow> groupLinked (tasks p) g"
    by (simp_all add: membershipOK_def)
  from mem obtain grp where grp: "grp \<in> set (groups p)" "group_id grp = gid" "taskId \<in> set (taskIds grp)"
    by blast
  have only: "h = grp" if "h \<in> set (groups p)" "group_id h = gid" for h
    using same_group_id [OF dg that(1) grp(1)] that(2) grp(2) by simp
  have "find (\<lambda>g. group_id g = gid) (groups p) \<noteq> None"
    using grp by (auto simp: find_None_iff)
  then obtain g0 where g0: "find (\<lambda>g. group_id g = gid) (groups p) = Some g0" by blast
  then have "g0 \<in> set (groups p)" "group_id g0 = gid"
    by (auto simp: find_Some_iff)
  then have "g0 = grp" by (rule only)
  with g0 have found: "find (\<lambda>g. group_id g = gid) (groups p) = Some grp" by simp
  let ?clr = "\<lambda>t. if task_id t = taskId then t\<lparr>groupId := None\<rparr> else t"
  let ?ts = "map ?clr (tasks p)"
  let ?rem = "filter (\<lambda>i. i \<noteq> taskId) (taskIds grp)"
  from gl [OF grp(1)] grp(2) have dgrp: "distinct (taskIds grp)"
    and mgrp: "\<And>i. i \<in> set (taskIds grp) \<Longrightarrow> \<exists>t\<in>set (tasks p). task_id t = i \<and> groupId t = Some gid"
    by (simp_all add: groupLinked_def)
  have 1: "distinct (map task_id ?ts)"
    using dt by (simp only: map_task_id_unlink)
  text \<open>A group other than the one unlinked from does not list the task.\<close>
  have other: "taskId \<notin> set (taskIds h)" if "h \<in> set (groups p)" "group_id h \<noteq> gid" for h
  proof
    assume "taskId \<in> set (taskIds h)"
    with gl [OF that(1)] obtain t where t: "t \<in> set (tasks p)" "task_id t = taskId" "groupId t = Some (group_id h)"
      by (auto simp: groupLinked_def)
    from mgrp [OF grp(3)] obtain u where u: "u \<in> set (tasks p)" "task_id u = taskId" "groupId u = Some gid"
      by blast
    from same_task_id [OF dt t(1) u(1)] t(2) u(2) have "t = u" by simp
    with t(3) u(3) that(2) show False by simp
  qed
  have keep: "groupLinked ?ts h" if "h \<in> set (groups p)" "group_id h \<noteq> gid" for h
  proof -
    from gl [OF that(1)] have d: "distinct (taskIds h)"
      and m: "\<And>i. i \<in> set (taskIds h) \<Longrightarrow> \<exists>t\<in>set (tasks p). task_id t = i \<and> groupId t = Some (group_id h)"
      by (simp_all add: groupLinked_def)
    have "\<exists>t'\<in>set ?ts. task_id t' = i \<and> groupId t' = Some (group_id h)" if i: "i \<in> set (taskIds h)" for i
    proof -
      from m [OF i] obtain t where t: "t \<in> set (tasks p)" "task_id t = i" "groupId t = Some (group_id h)"
        by blast
      from other [OF \<open>h \<in> set (groups p)\<close> \<open>group_id h \<noteq> gid\<close>] i have "i \<noteq> taskId" by blast
      with t(2) have "?clr t = t" by simp
      moreover from t(1) have "?clr t \<in> set ?ts" by (rule in_set_mapI)
      ultimately have "t \<in> set ?ts" by simp
      with t show ?thesis by blast
    qed
    with d show ?thesis by (simp only: groupLinked_def) blast
  qed
  show ?thesis
  proof (cases "?rem = []")
    case True
    let ?gs = "filter (\<lambda>g. group_id g \<noteq> gid) (groups p)"
    have 2: "distinct (map group_id ?gs)"
      using dg by (rule distinct_map_filter)
    have 3: "taskLinked ?gs t'" if "t' \<in> set ?ts" for t'
    proof -
      from that obtain t where t: "t \<in> set (tasks p)" "t' = ?clr t" by (rule in_set_mapE)
      show ?thesis
      proof (cases "task_id t = taskId")
        case True
        with t show ?thesis by (simp add: taskLinked_def)
      next
        case False
        with t have t': "t' = t" by simp
        show ?thesis
        proof (cases "groupId t")
          case None
          with t' show ?thesis by (simp add: taskLinked_def)
        next
          case (Some g)
          with tl [OF t(1)] obtain h where h: "h \<in> set (groups p)" "group_id h = g" "task_id t \<in> set (taskIds h)"
            by (auto simp: taskLinked_def)
          have "g \<noteq> gid"
          proof
            assume "g = gid"
            with h have "h = grp" by (intro only) simp_all
            with h(3) False have "task_id t \<in> set ?rem" by simp
            with True show False by simp
          qed
          with h have "h \<in> set ?gs" by simp
          with h Some t' show ?thesis by (auto simp: taskLinked_def)
        qed
      qed
    qed
    have 4: "groupLinked ?ts g" if "g \<in> set ?gs" for g
      using that by (intro keep) simp_all
    from unlocked True found
    have "handleUnlinkTask isLocked taskId gid p = p\<lparr>groups := ?gs, tasks := ?ts\<rparr>"
      by (simp add: handleUnlinkTask_def Let_def)
    with 1 2 3 4 show ?thesis by (simp only: membershipOK_def) simp
  next
    case False
    let ?upd = "grp\<lparr>taskIds := ?rem,
       intervals := gapsOf (sort_by startOrder (List.map_filter (taskMap (tasks p)) ?rem))\<rparr>"
    let ?repl = "\<lambda>g. if group_id g = gid then ?upd else g"
    let ?gs = "map ?repl (groups p)"
    have idu: "group_id ?upd = gid" using grp(2) by simp
    have "map group_id ?gs = map group_id (groups p)"
      using idu by (rule map_group_id_replace_at)
    with dg have 2: "distinct (map group_id ?gs)" by (simp only:)
    have 3: "taskLinked ?gs t'" if "t' \<in> set ?ts" for t'
    proof -
      from that obtain t where t: "t \<in> set (tasks p)" "t' = ?clr t" by (rule in_set_mapE)
      show ?thesis
      proof (cases "task_id t = taskId")
        case True
        with t show ?thesis by (simp add: taskLinked_def)
      next
        case ne: False
        with t have t': "t' = t" by simp
        show ?thesis
        proof (cases "groupId t")
          case None
          with t' show ?thesis by (simp add: taskLinked_def)
        next
          case (Some g)
          with tl [OF t(1)] obtain h where h: "h \<in> set (groups p)" "group_id h = g" "task_id t \<in> set (taskIds h)"
            by (auto simp: taskLinked_def)
          from h(1) have in_gs: "?repl h \<in> set ?gs" by (rule in_set_mapI)
          show ?thesis
          proof (cases "g = gid")
            case True
            with h have "h = grp" by (intro only) simp_all
            with h(3) ne have "task_id t \<in> set ?rem" by simp
            moreover from True h(2) have "?repl h = ?upd" by simp
            ultimately have "?upd \<in> set ?gs" "group_id ?upd = g" "task_id t \<in> set (taskIds ?upd)"
              using in_gs True idu by simp_all
            then have "\<exists>k\<in>set ?gs. group_id k = g \<and> task_id t \<in> set (taskIds k)" by blast
            with Some t' show ?thesis by (simp add: taskLinked_def)
          next
            case False
            with h(2) have "?repl h = h" by simp
            with in_gs have "h \<in> set ?gs" by simp
            with h have "\<exists>k\<in>set ?gs. group_id k = g \<and> task_id t \<in> set (taskIds k)" by blast
            with Some t' show ?thesis by (simp add: taskLinked_def)
          qed
        qed
      qed
    qed
    have 4: "groupLinked ?ts g'" if "g' \<in> set ?gs" for g'
    proof -
      from that obtain h where h: "h \<in> set (groups p)" "g' = ?repl h" by (rule in_set_mapE)
      show ?thesis
      proof (cases "group_id h = gid")
        case True
        with h have g': "g' = ?upd" by simp
        have "\<exists>t'\<in>set ?ts. task_id t' = i \<and> groupId t' = Some gid" if i: "i \<in> set ?rem" for i
        proof -
          from i have "i \<in> set (taskIds grp)" "i \<noteq> taskId" by simp_all
          from mgrp [OF this(1)] obtain t where t: "t \<in> set (tasks p)" "task_id t = i" "groupId t = Some gid"
            by blast
          with \<open>i \<noteq> taskId\<close> have "?clr t = t" by simp
          moreover from t(1) have "?clr t \<in> set ?ts" by (rule in_set_mapI)
          ultimately have "t \<in> set ?ts" by simp
          with t show ?thesis by blast
        qed
        moreover have "distinct ?rem" using dgrp by simp
        ultimately have "groupLinked ?ts ?upd"
          using idu by (simp add: groupLinked_def)
        with g' show ?thesis by simp
      next
        case False
        with h have "g' = h" by simp
        with keep [OF h(1) False] show ?thesis by simp
      qed
    qed
    from unlocked False found
    have "handleUnlinkTask isLocked taskId gid p = p\<lparr>groups := ?gs, tasks := ?ts\<rparr>"
      by (simp add: handleUnlinkTask_def Let_def)
    with 1 2 3 4 show ?thesis by (simp only: membershipOK_def) simp
  qed
qed

lemma map_task_id_regroup:
  "map task_id (map (\<lambda>t. if task_id t \<in> S then t\<lparr>groupId := Some g\<rparr> else t) ts) = map task_id ts"
  by (rule nth_equalityI) simp_all

lemma map_group_id_cleaned:
  "map group_id (List.map_filter (cleanGroup ts ids) gs) =
   map group_id (filter (\<lambda>g. \<exists>i\<in>set (taskIds g). i \<notin> set ids) gs)"
proof -
  have "map fst (map (\<lambda>g. (group_id g, taskIds g)) (List.map_filter (cleanGroup ts ids) gs)) =
        map fst (map (\<lambda>g. (group_id g, filter (\<lambda>i. i \<notin> set ids) (taskIds g)))
          (filter (\<lambda>g. \<exists>i\<in>set (taskIds g). i \<notin> set ids) gs))"
    by (simp only: map_filter_cleanGroup)
  then show ?thesis by (simp add: comp_def)
qed

lemma membershipOK_createGroup:
  assumes ok: "membershipOK p"
    and ds: "distinct selected"
    and fresh: "newGroupId \<notin> group_id ` set (groups p)"
    and res: "createGroup groupName newGroupId selected p = Inr p'"
  shows "membershipOK p'"
proof -
  let ?sel = "sort_by startOrder (findTasks (tasks p) selected)"
  let ?ids = "map task_id ?sel"
  let ?upd = "\<lambda>t. if task_id t \<in> set ?ids then t\<lparr>groupId := Some newGroupId\<rparr> else t"
  let ?ts = "map ?upd (tasks p)"
  let ?cl = "List.map_filter (cleanGroup (tasks p) ?ids) (groups p)"
  let ?new = "\<lparr>group_id = newGroupId, group_name = groupName, taskIds = ?ids, intervals = gapsOf ?sel\<rparr>"
  let ?gs = "?cl @ [?new]"
  from ok have dt: "distinct (map task_id (tasks p))" and dg: "distinct (map group_id (groups p))"
    and tl: "\<And>t. t \<in> set (tasks p) \<Longrightarrow> taskLinked (groups p) t"
    and gl: "\<And>g. g \<in> set (groups p) \<Longrightarrow> groupLinked (tasks p) g"
    by (simp_all add: membershipOK_def)
  have "mset ?ids = mset (map task_id (findTasks (tasks p) selected))"
    using mset_sort_by [of startOrder "findTasks (tasks p) selected"] by (metis mset_map)
  then have ms: "mset ?ids = mset (filter (\<lambda>i. i \<in> task_id ` set (tasks p)) selected)"
    by (simp only: map_task_id_findTasks)
  from ds have "distinct (filter (\<lambda>i. i \<in> task_id ` set (tasks p)) selected)" by simp
  with ms have dids: "distinct ?ids" by (metis mset_eq_imp_distinct_iff)
  from ms have "set ?ids = set (filter (\<lambda>i. i \<in> task_id ` set (tasks p)) selected)"
    by (rule mset_eq_setD)
  then have sub: "set ?ids \<subseteq> task_id ` set (tasks p)" by auto
  have 1: "distinct (map task_id ?ts)"
    using dt by (simp only: map_task_id_regroup)
  have cl_ids: "map group_id ?cl = map group_id (filter (\<lambda>g. \<exists>i\<in>set (taskIds g). i \<notin> set ?ids) (groups p))"
    by (rule map_group_id_cleaned)
  have "distinct (map group_id ?cl)"
    unfolding cl_ids using dg by (rule distinct_map_filter)
  moreover have "newGroupId \<notin> set (map group_id ?cl)"
    unfolding cl_ids using fresh by auto
  ultimately have 2: "distinct (map group_id ?gs)" by simp
  have 3: "taskLinked ?gs t'" if "t' \<in> set ?ts" for t'
  proof -
    from that obtain t where t: "t \<in> set (tasks p)" "t' = ?upd t" by (rule in_set_mapE)
    show ?thesis
    proof (cases "task_id t \<in> set ?ids")
      case True
      with t have "groupId t' = Some newGroupId" "task_id t' \<in> set ?ids" by simp_all
      moreover have "?new \<in> set ?gs" by simp
      ultimately have "\<exists>k\<in>set ?gs. group_id k = newGroupId \<and> task_id t' \<in> set (taskIds k)"
        by (intro bexI [where x = ?new]) simp_all
      with \<open>groupId t' = Some newGroupId\<close> show ?thesis by (simp add: taskLinked_def)
    next
      case False
      with t have t': "t' = t" by simp
      show ?thesis
      proof (cases "groupId t")
        case None
        with t' show ?thesis by (simp add: taskLinked_def)
      next
        case (Some g)
        with tl [OF t(1)] obtain h where h: "h \<in> set (groups p)" "group_id h = g" "task_id t \<in> set (taskIds h)"
          by (auto simp: taskLinked_def)
        from h(3) False have "task_id t \<in> set (filter (\<lambda>i. i \<notin> set ?ids) (taskIds h))" by simp
        then have ne: "filter (\<lambda>i. i \<notin> set ?ids) (taskIds h) \<noteq> []" by (metis empty_iff empty_set)
        then have "cleanGroup (tasks p) ?ids h \<noteq> None" by (simp only: cleanGroup_None) simp
        then obtain h' where h': "cleanGroup (tasks p) ?ids h = Some h'" by blast
        from cleanGroup_Some [OF h'] have "group_id h' = group_id h"
          "taskIds h' = filter (\<lambda>i. i \<notin> set ?ids) (taskIds h)" by simp_all
        with h False have "group_id h' = g" "task_id t \<in> set (taskIds h')" by simp_all
        moreover from h(1) h' have "h' \<in> set ?cl" by (auto simp: set_map_filter)
        then have "h' \<in> set ?gs" by simp
        ultimately have "\<exists>k\<in>set ?gs. group_id k = g \<and> task_id t \<in> set (taskIds k)" by blast
        with Some t' show ?thesis by (simp add: taskLinked_def)
      qed
    qed
  qed
  have new: "groupLinked ?ts ?new"
  proof -
    have "\<exists>t'\<in>set ?ts. task_id t' = i \<and> groupId t' = Some newGroupId" if i: "i \<in> set ?ids" for i
    proof -
      from i sub obtain t where t: "t \<in> set (tasks p)" "task_id t = i" by blast
      with i have u: "?upd t = t\<lparr>groupId := Some newGroupId\<rparr>" by simp
      from t(1) have "?upd t \<in> set ?ts" by (rule in_set_mapI)
      with u have "t\<lparr>groupId := Some newGroupId\<rparr> \<in> set ?ts" by simp
      with t(2) show ?thesis by (intro bexI [where x = "t\<lparr>groupId := Some newGroupId\<rparr>"]) simp_all
    qed
    with dids show ?thesis by (simp add: groupLinked_def)
  qed
  have old: "groupLinked ?ts g'" if "g' \<in> set ?cl" for g'
  proof -
    from that obtain h where h: "h \<in> set (groups p)" "cleanGroup (tasks p) ?ids h = Some g'"
      by (auto simp: set_map_filter)
    from cleanGroup_Some [OF h(2)] have g': "group_id g' = group_id h"
      "taskIds g' = filter (\<lambda>i. i \<notin> set ?ids) (taskIds h)" by simp_all
    from gl [OF h(1)] have d: "distinct (taskIds h)"
      and m: "\<And>i. i \<in> set (taskIds h) \<Longrightarrow> \<exists>t\<in>set (tasks p). task_id t = i \<and> groupId t = Some (group_id h)"
      by (simp_all add: groupLinked_def)
    have "\<exists>t'\<in>set ?ts. task_id t' = i \<and> groupId t' = Some (group_id h)"
      if i: "i \<in> set (filter (\<lambda>i. i \<notin> set ?ids) (taskIds h))" for i
    proof -
      from i have "i \<in> set (taskIds h)" "i \<notin> set ?ids" by simp_all
      from m [OF this(1)] obtain t where t: "t \<in> set (tasks p)" "task_id t = i" "groupId t = Some (group_id h)"
        by blast
      with \<open>i \<notin> set ?ids\<close> have "?upd t = t" by simp
      moreover from t(1) have "?upd t \<in> set ?ts" by (rule in_set_mapI)
      ultimately have "t \<in> set ?ts" by simp
      with t show ?thesis by blast
    qed
    moreover from d have "distinct (filter (\<lambda>i. i \<notin> set ?ids) (taskIds h))" by simp
    ultimately show ?thesis unfolding groupLinked_def g' by blast
  qed
  have 4: "groupLinked ?ts g'" if "g' \<in> set ?gs" for g'
  proof -
    from that have "g' \<in> set ?cl \<or> g' = ?new" by auto
    with new old show ?thesis by blast
  qed
  from createGroup_Inr(1) [OF res] have "p' = p\<lparr>tasks := ?ts, groups := ?gs\<rparr>" .
  with 1 2 3 4 show ?thesis by (simp only: membershipOK_def) simp
qed

text \<open>
  C3. The membership invariant holds again after each operation of the group model:
  creating a group from a selection (a set of ids) under a fresh group id, unlinking a
  task from a group it is a member of, and deleting a group.
\<close>

theorem bidirectional_membership_preserved:
  assumes ok: "membershipOK p"
  shows "(distinct selected \<and> newGroupId \<notin> group_id ` set (groups p) \<longrightarrow>
            membershipOK (project (handleCreateGroup isLocked prompted newGroupId
              \<lparr>project = p, selectedTaskIds = selected, notifications = ns\<rparr>))) \<and>
         ((\<exists>grp\<in>set (groups p). group_id grp = gid \<and> taskId \<in> set (taskIds grp)) \<longrightarrow>
            membershipOK (handleUnlinkTask isLocked taskId gid p)) \<and>
         membershipOK (handleDeleteGroup isLocked gid p)"
proof (intro conjI impI)
  assume a: "distinct selected \<and> newGroupId \<notin> group_id ` set (groups p)"
  let ?s = "\<lparr>project = p, selectedTaskIds = selected, notifications = ns\<rparr>"
  have created: "membershipOK p'" if "createGroup groupName newGroupId selected p = Inr p'" for groupName p'
    using ok a that by (intro membershipOK_createGroup [of p selected newGroupId groupName p']) simp_all
  show "membershipOK (project (handleCreateGroup isLocked prompted newGroupId ?s))"
  proof (cases "isLocked \<or> prompted = None \<or> blank (the prompted)")
    case True
    then have "handleCreateGroup isLocked prompted newGroupId ?s = ?s"
      by (auto simp: handleCreateGroup_def split: option.splits)
    with ok show ?thesis by simp
  next
    case False
    then obtain groupName where n: "\<not> isLocked" "prompted = Some groupName" "\<not> blank groupName"
      by auto
    show ?thesis
    proof (cases "createGroup groupName newGroupId selected p")
      case (Inl e)
      with n ok show ?thesis by (simp add: handleCreateGroup_def)
    next
      case (Inr p')
      with n created [OF Inr] show ?thesis by (simp add: handleCreateGroup_def)
    qed
  qed
next
  assume "\<exists>grp\<in>set (groups p). group_id grp = gid \<and> taskId \<in> set (taskIds grp)"
  with ok show "membershipOK (handleUnlinkTask isLocked taskId gid p)"
    by (rule membershipOK_unlinkTask)
next
  from ok show "membershipOK (handleDeleteGroup isLocked gid p)"
    by (rule membershipOK_deleteGroup)
qed

text \<open>The three operations on the example project.\<close>

theorem bidirectional_membership_preserved_witness:
  "membershipOK ex_grouped \<and>
   membershipOK (project (handleCreateGroup False (Some (utf16 ''new'')) ''g1''
      \<lparr>project = ex_grouped, selectedTaskIds = [''B'', ''C''], notifications = []\<rparr>)) \<and>
   membershipOK (handleUnlinkTask False ''B'' ''g0'' ex_grouped) \<and>
   membershipOK (handleDeleteGroup False ''g0'' ex_grouped)"
proof -
  have ok: "membershipOK ex_grouped"
    by (simp add: membershipOK_def taskLinked_def groupLinked_def ex_grouped_def ex_task_def)
  have a: "distinct [''B'', ''C''] \<and> ''g1'' \<notin> group_id ` set (groups ex_grouped)"
    by (simp add: ex_grouped_def)
  have b: "\<exists>grp\<in>set (groups ex_grouped). group_id grp = ''g0'' \<and> ''B'' \<in> set (taskIds grp)"
    by (simp add: ex_grouped_def)
  from bidirectional_membership_preserved [where p = ex_grouped and selected = "[''B'', ''C'']"
      and newGroupId = "''g1''" and isLocked = False and prompted = "Some (utf16 ''new'')" and ns = "[]"
      and gid = "''g0''" and taskId = "''B''", OF ok]
    ok a b
  show ?thesis by blast
qed

section \<open>Facts about the drag controller\<close>

lemma findIndex_None: "findIndex P xs = None \<longleftrightarrow> (\<forall>x\<in>set xs. \<not> P x)"
  by (induction xs) auto

lemma findIndex_Some:
  "findIndex P xs = Some i \<Longrightarrow> i < length xs \<and> P (xs ! i)"
proof (induction xs arbitrary: i)
  case Nil
  then show ?case by simp
next
  case (Cons x xs)
  show ?case
  proof (cases "P x")
    case True
    with Cons.prems show ?thesis by simp
  next
    case False
    with Cons.prems obtain k where k: "findIndex P xs = Some k" "i = Suc k" by auto
    from Cons.IH [OF k(1)] k(2) show ?thesis by simp
  qed
qed

lemma same_index:
  "distinct (map task_id ts) \<Longrightarrow> i < length ts \<Longrightarrow> j < length ts \<Longrightarrow>
   task_id (ts ! i) = task_id (ts ! j) \<Longrightarrow> i = j"
  using nth_eq_iff_index_eq [of "map task_id ts" i j] by simp

text \<open>One round of the loop, for a task list without repeated ids.\<close>

lemma moveRelated_step:
  assumes "distinct (map task_id ts)"
  shows "moveRelated (Some n) (r # rest) ts =
     moveRelated (Some n) rest
       (map (\<lambda>t. if task_id t = rel_id r
                  then t\<lparr>startDate := initialStart r + n, endDate := initialEnd r + n\<rparr> else t) ts)"
proof (cases "findIndex (\<lambda>t. task_id t = rel_id r) ts")
  case None
  then have "\<forall>t\<in>set ts. task_id t \<noteq> rel_id r" by (simp add: findIndex_None)
  then have "map (\<lambda>t. if task_id t = rel_id r
                  then t\<lparr>startDate := initialStart r + n, endDate := initialEnd r + n\<rparr> else t) ts = ts"
    by (intro map_idI) simp
  with None show ?thesis by simp
next
  case (Some i)
  from findIndex_Some [OF Some] have i: "i < length ts" "task_id (ts ! i) = rel_id r" by simp_all
  have "ts[i := (ts ! i)\<lparr>startDate := initialStart r + n, endDate := initialEnd r + n\<rparr>] =
        map (\<lambda>t. if task_id t = rel_id r
                  then t\<lparr>startDate := initialStart r + n, endDate := initialEnd r + n\<rparr> else t) ts"
  proof (rule nth_equalityI)
    show "length (ts[i := (ts ! i)\<lparr>startDate := initialStart r + n, endDate := initialEnd r + n\<rparr>]) =
        length (map (\<lambda>t. if task_id t = rel_id r
                  then t\<lparr>startDate := initialStart r + n, endDate := initialEnd r + n\<rparr> else t) ts)"
      by simp
    fix j
    assume "j < length (ts[i := (ts ! i)\<lparr>startDate := initialStart r + n, endDate := initialEnd r + n\<rparr>])"
    then have j: "j < length ts" by simp
    show "ts[i := (ts ! i)\<lparr>startDate := initialStart r + n, endDate := initialEnd r + n\<rparr>] ! j =
        map (\<lambda>t. if task_id t = rel_id r
                  then t\<lparr>startDate := initialStart r + n, endDate := initialEnd r + n\<rparr> else t) ts ! j"
    proof (cases "j = i")
      case True
      with i show ?thesis by simp
    next
      case False
      with same_index [OF assms j i(1)] i(2) have "task_id (ts ! j) \<noteq> rel_id r" by auto
      with False j show ?thesis by simp
    qed
  qed
  moreover have "addDays (initialStart r) n = initialStart r + n"
    "addDays (addDays (initialStart r) n) (differenceInDays (initialEnd r) (initialStart r)) = initialEnd r + n"
    by (simp_all add: addDays_def differenceInDays_def)
  ultimately show ?thesis using Some
    by (simp only: moveRelated.simps option.case Let_def)
qed

lemma map_task_id_moved:
  "map task_id (map (\<lambda>t. if task_id t = k then t\<lparr>startDate := a, endDate := b\<rparr> else t) ts) = map task_id ts"
  by (rule nth_equalityI) simp_all

lemma find_rel_None:
  "k \<notin> set (map rel_id rs) \<Longrightarrow> find (\<lambda>r. rel_id r = k) rs = None"
  by (auto simp: find_None_iff)

lemma moveRelated_result:
  assumes "distinct (map task_id ts)" "distinct (map rel_id rs)"
  shows "\<exists>ts'. moveRelated (Some n) rs ts = Inr ts' \<and> map task_id ts' = map task_id ts \<and>
     (\<forall>i<length ts. ts' ! i =
        (case find (\<lambda>r. rel_id r = task_id (ts ! i)) rs of
           None \<Rightarrow> ts ! i
         | Some r \<Rightarrow> (ts ! i)\<lparr>startDate := initialStart r + n, endDate := initialEnd r + n\<rparr>))"
  using assms
proof (induction rs arbitrary: ts)
  case Nil
  then show ?case by simp
next
  case (Cons r rest)
  let ?step = "\<lambda>t. if task_id t = rel_id r
                  then t\<lparr>startDate := initialStart r + n, endDate := initialEnd r + n\<rparr> else t"
  let ?ts1 = "map ?step ts"
  have ids1: "map task_id ?ts1 = map task_id ts" by (rule map_task_id_moved)
  with Cons.prems(1) have d1: "distinct (map task_id ?ts1)" by (simp only:)
  from Cons.prems(2) have d2: "distinct (map rel_id rest)" and fresh: "rel_id r \<notin> set (map rel_id rest)"
    by simp_all
  from Cons.IH [OF d1 d2] obtain ts' where ts':
    "moveRelated (Some n) rest ?ts1 = Inr ts'" "map task_id ts' = map task_id ?ts1"
    "\<And>i. i < length ?ts1 \<Longrightarrow> ts' ! i =
        (case find (\<lambda>r. rel_id r = task_id (?ts1 ! i)) rest of
           None \<Rightarrow> ?ts1 ! i
         | Some r \<Rightarrow> (?ts1 ! i)\<lparr>startDate := initialStart r + n, endDate := initialEnd r + n\<rparr>)"
    by blast
  have "ts' ! i =
        (case find (\<lambda>q. rel_id q = task_id (ts ! i)) (r # rest) of
           None \<Rightarrow> ts ! i
         | Some q \<Rightarrow> (ts ! i)\<lparr>startDate := initialStart q + n, endDate := initialEnd q + n\<rparr>)"
    if i: "i < length ts" for i
  proof (cases "task_id (ts ! i) = rel_id r")
    case True
    with fresh have "find (\<lambda>q. rel_id q = task_id (ts ! i)) rest = None"
      by (intro find_rel_None) simp
    moreover from True i have "?ts1 ! i = (ts ! i)\<lparr>startDate := initialStart r + n, endDate := initialEnd r + n\<rparr>"
      by simp
    moreover from i have "task_id (?ts1 ! i) = task_id (ts ! i)" by simp
    ultimately show ?thesis using ts'(3) [of i] i True by simp
  next
    case False
    then have ne: "rel_id r \<noteq> task_id (ts ! i)" by auto
    from False i have "?ts1 ! i = ts ! i" by simp
    with ts'(3) [of i] i ne show ?thesis by (simp split: option.splits)
  qed
  with ts'(1,2) ids1 moveRelated_step [OF Cons.prems(1), of n r rest] show ?case
    by simp
qed

lemma find_snapshot_absent:
  "k \<notin> task_id ` set ts \<Longrightarrow> find (\<lambda>r. rel_id r = k) (map snapshot (filter P ts)) = None"
  by (auto simp: find_None_iff snapshot_def)

lemma find_snapshot:
  "distinct (map task_id ts) \<Longrightarrow> u \<in> set ts \<Longrightarrow>
   find (\<lambda>r. rel_id r = task_id u) (map snapshot (filter P ts)) = (if P u then Some (snapshot u) else None)"
proof (induction ts)
  case Nil
  then show ?case by simp
next
  case (Cons a ts)
  from Cons.prems(1) have a: "task_id a \<notin> task_id ` set ts" and d: "distinct (map task_id ts)"
    by simp_all
  show ?case
  proof (cases "u = a")
    case True
    show ?thesis
    proof (cases "P a")
      case True
      with \<open>u = a\<close> show ?thesis by (simp add: snapshot_def)
    next
      case False
      with \<open>u = a\<close> find_snapshot_absent [OF a, of P] show ?thesis by simp
    qed
  next
    case False
    with Cons.prems(2) have u: "u \<in> set ts" by simp
    with a have "task_id a \<noteq> task_id u" by auto
    with Cons.IH [OF d u] show ?thesis by (simp add: snapshot_def)
  qed
qed

lemma distinct_rel_id_snapshots:
  "distinct (map task_id ts) \<Longrightarrow> distinct (map rel_id (map snapshot (filter P ts)))"
proof -
  assume "distinct (map task_id ts)"
  then have "distinct (map task_id (filter P ts))" by (rule distinct_map_filter)
  moreover have "map rel_id (map snapshot (filter P ts)) = map task_id (filter P ts)"
    by (rule nth_equalityI) (simp_all add: snapshot_def)
  ultimately show ?thesis by (simp only:)
qed

lemmas drag_eval = handleTaskDragStart_def handleMouseMove_def ex_grouped_def ex_task_def ex_move_def
  ex_resize_def Let_def truthy_def snapshot_def roundedQuotient_def addDays_def differenceInDays_def round_def

text \<open>
  C4, as the code has it. A move drag is started on a task that has a group, in a
  project whose task ids are unique, and the pointer is at least 3 pixels away from
  where it went down, on one axis or the other. Then the working copy is updated, and with
  \<open>n = Math.round(dx / dayWidth) + Math.round(dy / weekHeight) * 7\<close>, the differences
  and the quotients being those of doubles, every task of that group
  starts and ends \<open>n\<close> days after its dates at the start of the drag; the other tasks
  are left as they are in the working copy. So each task of the group keeps its
  duration, and the differences between the dates of any two of them are unchanged.
\<close>

theorem group_move_is_rigid:
  fixes p tp :: project and x y x0 y0 :: real and fl :: "real \<Rightarrow> real"
  assumes start: "handleTaskDragStart fl isLocked editing rect p taskProp Move x0 y0 = Some (ds, tp0)"
    and ids: "distinct (map task_id (tasks p))"
    and grouped: "groupId (case find (\<lambda>t. task_id t = task_id taskProp) (tasks p) of
                             Some found \<Rightarrow> found | None \<Rightarrow> taskProp) = Some g" "g \<noteq> []"
    and copy: "map task_id (tasks tp) = map task_id (tasks p)"
    and width: "dayWidth ds \<noteq> 0"
    and past: "\<not> (\<bar>fl (x - x0)\<bar> < 3 \<and> \<bar>fl (y - y0)\<bar> < 3)"
  defines "n \<equiv> round (fl (fl (x - x0) / dayWidth ds)) + round (fl (fl (y - y0) / weekHeight ds)) * 7"
  shows "\<exists>tp'. handleMouseMove fl ds tp x y = Inr tp' \<and>
     map task_id (tasks tp') = map task_id (tasks p) \<and>
     (\<forall>i<length (tasks p).
        (groupId (tasks p ! i) = Some g \<longrightarrow>
           tasks tp' ! i = (tasks tp ! i)\<lparr>startDate := startDate (tasks p ! i) + n,
                                         endDate := endDate (tasks p ! i) + n\<rparr>) \<and>
        (groupId (tasks p ! i) \<noteq> Some g \<longrightarrow> tasks tp' ! i = tasks tp ! i)) \<and>
     (\<forall>i<length (tasks p). \<forall>j<length (tasks p).
        groupId (tasks p ! i) = Some g \<and> groupId (tasks p ! j) = Some g \<longrightarrow>
          endDate (tasks tp' ! i) = startDate (tasks tp' ! i) + (endDate (tasks p ! i) - startDate (tasks p ! i)) \<and>
          startDate (tasks tp' ! i) - startDate (tasks tp' ! j) = startDate (tasks p ! i) - startDate (tasks p ! j) \<and>
          endDate (tasks tp' ! i) - endDate (tasks tp' ! j) = endDate (tasks p ! i) - endDate (tasks p ! j) \<and>
          startDate (tasks tp' ! i) - endDate (tasks tp' ! j) = startDate (tasks p ! i) - endDate (tasks p ! j))"
proof -
  let ?rs = "map snapshot (filter (\<lambda>u. groupId u = Some g) (tasks p))"
  from start grouped have ds: "drag_type ds = Move" "initialMouseX ds = x0" "initialMouseY ds = y0"
    "weekHeight ds > 0" "relatedTasks ds = ?rs"
    by (auto simp: handleTaskDragStart_def truthy_def Let_def split: if_splits option.splits)
  from ids copy have dtp: "distinct (map task_id (tasks tp))" by simp
  from ids have drs: "distinct (map rel_id ?rs)" by (rule distinct_rel_id_snapshots)
  from copy have len: "length (tasks tp) = length (tasks p)" by (rule map_eq_imp_length_eq)
  from moveRelated_result [OF dtp drs, of n] obtain ts' where ts':
    "moveRelated (Some n) ?rs (tasks tp) = Inr ts'" "map task_id ts' = map task_id (tasks tp)"
    "\<And>i. i < length (tasks tp) \<Longrightarrow> ts' ! i =
        (case find (\<lambda>r. rel_id r = task_id (tasks tp ! i)) ?rs of
           None \<Rightarrow> tasks tp ! i
         | Some r \<Rightarrow> (tasks tp ! i)\<lparr>startDate := initialStart r + n, endDate := initialEnd r + n\<rparr>)"
    by blast
  have same_id: "task_id (tasks tp ! i) = task_id (tasks p ! i)" if "i < length (tasks p)" for i
    using copy that len by (metis nth_map)
  have at: "ts' ! i = (if groupId (tasks p ! i) = Some g
      then (tasks tp ! i)\<lparr>startDate := startDate (tasks p ! i) + n, endDate := endDate (tasks p ! i) + n\<rparr>
      else tasks tp ! i)" if i: "i < length (tasks p)" for i
  proof -
    from i have "tasks p ! i \<in> set (tasks p)" by simp
    from find_snapshot [OF ids this, of "\<lambda>u. groupId u = Some g"] same_id [OF i]
    have "find (\<lambda>r. rel_id r = task_id (tasks tp ! i)) ?rs =
        (if groupId (tasks p ! i) = Some g then Some (snapshot (tasks p ! i)) else None)"
      by simp
    with ts'(3) [of i] i len show ?thesis by (simp add: snapshot_def)
  qed
  from past have np: "(\<bar>fl (x - x0)\<bar> < 3 \<and> \<bar>fl (y - y0)\<bar> < 3) = False" by simp
  have move: "handleMouseMove fl ds tp x y = Inr (tp\<lparr>tasks := ts'\<rparr>)"
    using width ds ts'(1)
    by (simp add: handleMouseMove_def Let_def roundedQuotient_def n_def np)
  have "map task_id (tasks (tp\<lparr>tasks := ts'\<rparr>)) = map task_id (tasks p)"
    using ts'(2) copy by simp
  moreover have "\<forall>i<length (tasks p).
        (groupId (tasks p ! i) = Some g \<longrightarrow>
           tasks (tp\<lparr>tasks := ts'\<rparr>) ! i = (tasks tp ! i)\<lparr>startDate := startDate (tasks p ! i) + n,
                                         endDate := endDate (tasks p ! i) + n\<rparr>) \<and>
        (groupId (tasks p ! i) \<noteq> Some g \<longrightarrow> tasks (tp\<lparr>tasks := ts'\<rparr>) ! i = tasks tp ! i)"
    using at by simp
  moreover have "\<forall>i<length (tasks p). \<forall>j<length (tasks p).
        groupId (tasks p ! i) = Some g \<and> groupId (tasks p ! j) = Some g \<longrightarrow>
          endDate (tasks (tp\<lparr>tasks := ts'\<rparr>) ! i) = startDate (tasks (tp\<lparr>tasks := ts'\<rparr>) ! i) + (endDate (tasks p ! i) - startDate (tasks p ! i)) \<and>
          startDate (tasks (tp\<lparr>tasks := ts'\<rparr>) ! i) - startDate (tasks (tp\<lparr>tasks := ts'\<rparr>) ! j) = startDate (tasks p ! i) - startDate (tasks p ! j) \<and>
          endDate (tasks (tp\<lparr>tasks := ts'\<rparr>) ! i) - endDate (tasks (tp\<lparr>tasks := ts'\<rparr>) ! j) = endDate (tasks p ! i) - endDate (tasks p ! j) \<and>
          startDate (tasks (tp\<lparr>tasks := ts'\<rparr>) ! i) - endDate (tasks (tp\<lparr>tasks := ts'\<rparr>) ! j) = startDate (tasks p ! i) - endDate (tasks p ! j)"
    using at by simp
  ultimately show ?thesis using move by blast
qed

text \<open>Task A of the example, dragged five columns to the right: A and B move by five days.\<close>

theorem group_move_is_rigid_witness:
  "handleTaskDragStart (\<lambda>r. r) False False (Some (896, 128)) ex_grouped (ex_task ''A'' 19723 19724 (Some ''g0'')) Move 16 16
     = Some (ex_move, ex_grouped) \<and>
   handleMouseMove (\<lambda>r. r) ex_move ex_grouped 656 16 =
     Inr ex_moved"
proof -
  have start: "handleTaskDragStart (\<lambda>r. r) False False (Some (896, 128)) ex_grouped
      (ex_task ''A'' 19723 19724 (Some ''g0'')) Move 16 16 = Some (ex_move, ex_grouped)"
    by (simp add: drag_eval)
  have ids: "distinct (map task_id (tasks ex_grouped))"
    by (simp add: ex_grouped_def ex_task_def)
  have grouped: "groupId (case find (\<lambda>t. task_id t = task_id (ex_task ''A'' 19723 19724 (Some ''g0'')))
        (tasks ex_grouped) of Some found \<Rightarrow> found | None \<Rightarrow> ex_task ''A'' 19723 19724 (Some ''g0''))
      = Some ''g0''" "''g0'' \<noteq> []"
    by (simp_all add: ex_grouped_def ex_task_def)
  have width: "dayWidth ex_move \<noteq> 0" by (simp add: ex_move_def)
  have past: "\<not> (\<bar>(\<lambda>r. r) (656 - 16 :: real)\<bar> < 3 \<and> \<bar>(\<lambda>r. r) (16 - 16 :: real)\<bar> < 3)" by simp
  from group_move_is_rigid [OF start ids grouped refl width past]
  obtain tp' where "handleMouseMove (\<lambda>r. r) ex_move ex_grouped 656 16 = Inr tp'" by blast
  with start show ?thesis by (simp add: drag_eval ex_moved_def)
qed

text \<open>
  C4 as stated fails below the threshold: after the move by five columns the pointer
  comes back to one pixel from its origin, the offset for that pointer position is 0
  (1/128 of a column, computed without rounding error),
  and the handler returns without touching the working copy, whose group is still five
  days away from the dates at the start of the drag.
\<close>

theorem group_move_stale_offset_counterexample:
  "handleTaskDragStart (\<lambda>r. r) False False (Some (896, 128)) ex_grouped (ex_task ''A'' 19723 19724 (Some ''g0'')) Move 16 16
     = Some (ex_move, ex_grouped) \<and>
   handleMouseMove (\<lambda>r. r) ex_move ex_grouped 656 16 = Inr ex_moved \<and>
   handleMouseMove (\<lambda>r. r) ex_move ex_moved 17 16 = Inr ex_moved \<and>
   round ((17 - initialMouseX ex_move) / dayWidth ex_move) +
     round ((16 - initialMouseY ex_move) / weekHeight ex_move) * 7 = 0 \<and>
   map startDate (tasks ex_grouped) = [19723, 19727, 19732] \<and>
   map startDate (tasks ex_moved) = [19728, 19732, 19732]"
  by (simp add: drag_eval ex_moved_def)

lemma resize_update:
  fixes x y :: real and fl :: "real \<Rightarrow> real"
  assumes resize: "drag_type ds \<noteq> Move"
    and width: "dayWidth ds \<noteq> 0"
    and past: "\<not> (\<bar>fl (x - initialMouseX ds)\<bar> < 3 \<and> \<bar>fl (y - initialMouseY ds)\<bar> < 3)"
  defines "dayOffset \<equiv> round (fl (fl (x - initialMouseX ds) / dayWidth ds))"
  shows "\<exists>tp'. handleMouseMove fl ds tp x y = Inr tp' \<and>
     (\<forall>t\<in>set (tasks tp'). task_id t = task_id (drag_task ds) \<longrightarrow>
        startDate t \<le> endDate t \<and>
        (drag_type ds = ResizeStart \<longrightarrow>
           endDate t = taskInitialEndDate ds \<and>
           startDate t = min (taskInitialStartDate ds + dayOffset) (taskInitialEndDate ds)) \<and>
        (drag_type ds = ResizeEnd \<longrightarrow>
           startDate t = taskInitialStartDate ds \<and>
           endDate t = max (taskInitialEndDate ds + dayOffset) (taskInitialStartDate ds)))"
proof -
  let ?s = "if drag_type ds = ResizeStart
            then min (taskInitialStartDate ds + dayOffset) (taskInitialEndDate ds)
            else taskInitialStartDate ds"
  let ?e = "if drag_type ds = ResizeStart
            then taskInitialEndDate ds
            else max (taskInitialEndDate ds + dayOffset) (taskInitialStartDate ds)"
  let ?u = "(drag_task ds)\<lparr>startDate := ?s, endDate := ?e\<rparr>"
  let ?f = "\<lambda>t. if task_id t = task_id (drag_task ds) then ?u else t"
  define tp' where "tp' = tp\<lparr>tasks := map ?f (tasks tp)\<rparr>"
  have tasks': "tasks tp' = map ?f (tasks tp)" by (simp add: tp'_def)
  from past have np: "(\<bar>fl (x - initialMouseX ds)\<bar> < 3 \<and> \<bar>fl (y - initialMouseY ds)\<bar> < 3) = False" by simp
  have move: "handleMouseMove fl ds tp x y = Inr tp'"
    unfolding tp'_def using resize width
    by (cases "drag_type ds")
       (simp_all add: handleMouseMove_def Let_def roundedQuotient_def dayOffset_def addDays_def min_def max_def np)
  have "\<forall>t\<in>set (tasks tp'). task_id t = task_id (drag_task ds) \<longrightarrow>
        startDate t \<le> endDate t \<and>
        (drag_type ds = ResizeStart \<longrightarrow>
           endDate t = taskInitialEndDate ds \<and>
           startDate t = min (taskInitialStartDate ds + dayOffset) (taskInitialEndDate ds)) \<and>
        (drag_type ds = ResizeEnd \<longrightarrow>
           startDate t = taskInitialStartDate ds \<and>
           endDate t = max (taskInitialEndDate ds + dayOffset) (taskInitialStartDate ds))"
  proof (intro ballI impI)
    fix t
    assume t: "t \<in> set (tasks tp')" "task_id t = task_id (drag_task ds)"
    from t(1) have "t \<in> set (map ?f (tasks tp))" by (simp only: tasks')
    then obtain v where v: "v \<in> set (tasks tp)" "t = ?f v" by (rule in_set_mapE)
    have "t = ?u"
    proof (cases "task_id v = task_id (drag_task ds)")
      case True
      with v show ?thesis by simp
    next
      case False
      with v have "t = v" by simp
      with t(2) False show ?thesis by simp
    qed
    with resize show "startDate t \<le> endDate t \<and>
        (drag_type ds = ResizeStart \<longrightarrow>
           endDate t = taskInitialEndDate ds \<and>
           startDate t = min (taskInitialStartDate ds + dayOffset) (taskInitialEndDate ds)) \<and>
        (drag_type ds = ResizeEnd \<longrightarrow>
           startDate t = taskInitialStartDate ds \<and>
           endDate t = max (taskInitialEndDate ds + dayOffset) (taskInitialStartDate ds))"
      by (cases "drag_type ds") simp_all
  qed
  with move show ?thesis by blast
qed

lemma below_threshold_unchanged:
  "\<bar>fl (x - initialMouseX ds)\<bar> < 3 \<and> \<bar>fl (y - initialMouseY ds)\<bar> < 3 \<Longrightarrow> handleMouseMove fl ds tp x y = Inr tp"
  by (simp add: handleMouseMove_def Let_def)

text \<open>
  C5. During a resize the handler either leaves the working copy as it is (pointer less
  than 3 pixels from its origin on both axes) or updates the resized task so that its
  end is not before its start: resizing the start keeps the end and gives the start
  \<open>min (start + offset) end\<close>, which never exceeds the end; resizing the end keeps the
  start and gives the end \<open>max (end + offset) start\<close>, which never precedes the start.
\<close>

theorem resize_clamp:
  fixes x y :: real and fl :: "real \<Rightarrow> real"
  assumes resize: "drag_type ds \<noteq> Move"
    and width: "dayWidth ds \<noteq> 0"
  defines "dayOffset \<equiv> round (fl (fl (x - initialMouseX ds) / dayWidth ds))"
  shows "(\<bar>fl (x - initialMouseX ds)\<bar> < 3 \<and> \<bar>fl (y - initialMouseY ds)\<bar> < 3 \<longrightarrow>
           handleMouseMove fl ds tp x y = Inr tp) \<and>
         (\<not> (\<bar>fl (x - initialMouseX ds)\<bar> < 3 \<and> \<bar>fl (y - initialMouseY ds)\<bar> < 3) \<longrightarrow>
           (\<exists>tp'. handleMouseMove fl ds tp x y = Inr tp' \<and>
             (\<forall>t\<in>set (tasks tp'). task_id t = task_id (drag_task ds) \<longrightarrow>
                startDate t \<le> endDate t \<and>
                (drag_type ds = ResizeStart \<longrightarrow>
                   endDate t = taskInitialEndDate ds \<and> startDate t \<le> taskInitialEndDate ds \<and>
                   startDate t = min (taskInitialStartDate ds + dayOffset) (taskInitialEndDate ds)) \<and>
                (drag_type ds = ResizeEnd \<longrightarrow>
                   startDate t = taskInitialStartDate ds \<and> taskInitialStartDate ds \<le> endDate t \<and>
                   endDate t = max (taskInitialEndDate ds + dayOffset) (taskInitialStartDate ds)))))"
proof (intro conjI impI)
  assume "\<bar>fl (x - initialMouseX ds)\<bar> < 3 \<and> \<bar>fl (y - initialMouseY ds)\<bar> < 3"
  then show "handleMouseMove fl ds tp x y = Inr tp" by (rule below_threshold_unchanged)
next
  assume "\<not> (\<bar>fl (x - initialMouseX ds)\<bar> < 3 \<and> \<bar>fl (y - initialMouseY ds)\<bar> < 3)"
  from resize_update [OF resize width this, where tp = tp] obtain tp' where tp':
    "handleMouseMove fl ds tp x y = Inr tp'"
    "\<And>t. t \<in> set (tasks tp') \<Longrightarrow> task_id t = task_id (drag_task ds) \<Longrightarrow>
        startDate t \<le> endDate t \<and>
        (drag_type ds = ResizeStart \<longrightarrow>
           endDate t = taskInitialEndDate ds \<and>
           startDate t = min (taskInitialStartDate ds + dayOffset) (taskInitialEndDate ds)) \<and>
        (drag_type ds = ResizeEnd \<longrightarrow>
           startDate t = taskInitialStartDate ds \<and>
           endDate t = max (taskInitialEndDate ds + dayOffset) (taskInitialStartDate ds))"
    unfolding dayOffset_def by blast
  have "startDate t \<le> endDate t \<and>
                (drag_type ds = ResizeStart \<longrightarrow>
                   endDate t = taskInitialEndDate ds \<and> startDate t \<le> taskInitialEndDate ds \<and>
                   startDate t = min (taskInitialStartDate ds + dayOffset) (taskInitialEndDate ds)) \<and>
                (drag_type ds = ResizeEnd \<longrightarrow>
                   startDate t = taskInitialStartDate ds \<and> taskInitialStartDate ds \<le> endDate t \<and>
                   endDate t = max (taskInitialEndDate ds + dayOffset) (taskInitialStartDate ds))"
    if "t \<in> set (tasks tp')" "task_id t = task_id (drag_task ds)" for t
    using tp'(2) [OF that] by auto
  with tp'(1) show "\<exists>tp'. handleMouseMove fl ds tp x y = Inr tp' \<and>
             (\<forall>t\<in>set (tasks tp'). task_id t = task_id (drag_task ds) \<longrightarrow>
                startDate t \<le> endDate t \<and>
                (drag_type ds = ResizeStart \<longrightarrow>
                   endDate t = taskInitialEndDate ds \<and> startDate t \<le> taskInitialEndDate ds \<and>
                   startDate t = min (taskInitialStartDate ds + dayOffset) (taskInitialEndDate ds)) \<and>
                (drag_type ds = ResizeEnd \<longrightarrow>
                   startDate t = taskInitialStartDate ds \<and> taskInitialStartDate ds \<le> endDate t \<and>
                   endDate t = max (taskInitialEndDate ds + dayOffset) (taskInitialStartDate ds)))"
    by blast
qed

text \<open>The start of task C dragged five columns to the right of a two-day task: it stops at the end.\<close>

theorem resize_clamp_witness:
  "handleMouseMove (\<lambda>r. r) ex_resize ex_grouped 656 16 =
     Inr (ex_grouped\<lparr>tasks := [ex_task ''A'' 19723 19724 (Some ''g0''), ex_task ''B'' 19727 19728 (Some ''g0''),
                                  ex_task ''C'' 19733 19733 None]\<rparr>)"
proof -
  have resize: "drag_type ex_resize \<noteq> Move" by (simp add: ex_resize_def)
  have width: "dayWidth ex_resize \<noteq> 0" by (simp add: ex_resize_def)
  have past: "\<not> (\<bar>(\<lambda>r. r) (656 - initialMouseX ex_resize)\<bar> < 3 \<and>
      \<bar>(\<lambda>r. r) (16 - initialMouseY ex_resize)\<bar> < 3)"
    by (simp add: ex_resize_def)
  from resize_clamp [OF resize width, where x = 656 and y = 16 and tp = ex_grouped and fl = "\<lambda>r. r"] past
  obtain tp' where "handleMouseMove (\<lambda>r. r) ex_resize ex_grouped 656 16 = Inr tp'" by blast
  then show ?thesis by (simp add: drag_eval)
qed

end
